theory Spec2Isabelle
  imports Complex_Main "HOL-Library.Sublist"
begin

section \<open>JSON values and the Python operations applied to them\<close>

text \<open>
  \<^verbatim>\<open>response.json()\<close> yields an arbitrary JSON value. Python's \<^verbatim>\<open>None\<close> is \<open>JNull\<close>,
  so the \<^verbatim>\<open>return None\<close> of \<^verbatim>\<open>get_card_transactions\<close> and a body that parses to
  \<^verbatim>\<open>null\<close> are the same value, as they are in Python. An object is the association
  list of its members in insertion order (keys distinct, as in a Python dict). A float is
  kept as the rational it denotes; the rounding of float arithmetic is not modelled.
\<close>

datatype json =
    JNull
  | JBool bool
  | JInt int
  | JFloat rat
  | JStr string
  | JArr "json list"
  | JObj "(string \<times> json) list"

datatype py_error = ValueError | TypeError | AttributeError | KeyError

text \<open>Truth value of a Python object, as tested by \<^verbatim>\<open>if not first_page\<close> and
  \<^verbatim>\<open>if page_data and ...\<close>.\<close>

fun truthy :: "json \<Rightarrow> bool" where
  "truthy JNull = False"
| "truthy (JBool b) = b"
| "truthy (JInt n) = (n \<noteq> 0)"
| "truthy (JFloat r) = (r \<noteq> 0)"
| "truthy (JStr s) = (s \<noteq> [])"
| "truthy (JArr xs) = (xs \<noteq> [])"
| "truthy (JObj kvs) = (kvs \<noteq> [])"

text \<open>\<^verbatim>\<open>key in x\<close> for a string \<open>key\<close>: membership among the keys of a dict, among the
  elements of a list, substring test on a string, and \<^verbatim>\<open>TypeError\<close> on the values that
  are not containers.\<close>

fun py_in :: "string \<Rightarrow> json \<Rightarrow> py_error + bool" where
  "py_in key (JObj kvs) = Inr (key \<in> set (map fst kvs))"
| "py_in key (JArr xs) = Inr (JStr key \<in> set xs)"
| "py_in key (JStr s) = Inr (sublist key s)"
| "py_in key JNull = Inl TypeError"
| "py_in key (JBool b) = Inl TypeError"
| "py_in key (JInt n) = Inl TypeError"
| "py_in key (JFloat r) = Inl TypeError"

text \<open>\<^verbatim>\<open>x.get(key, default)\<close>: only a dict has the method.\<close>

fun py_get :: "json \<Rightarrow> string \<Rightarrow> json \<Rightarrow> py_error + json" where
  "py_get (JObj kvs) key dflt = Inr (case map_of kvs key of Some v \<Rightarrow> v | None \<Rightarrow> dflt)"
| "py_get x key dflt = Inl AttributeError"

text \<open>\<^verbatim>\<open>x[key]\<close> for a string \<open>key\<close>.\<close>

fun py_getitem :: "json \<Rightarrow> string \<Rightarrow> py_error + json" where
  "py_getitem (JObj kvs) key = (case map_of kvs key of Some v \<Rightarrow> Inr v | None \<Rightarrow> Inl KeyError)"
| "py_getitem x key = Inl TypeError"

text \<open>The items Python iterates over, as \<^verbatim>\<open>list.extend\<close> does with its argument.\<close>

fun py_iter :: "json \<Rightarrow> py_error + json list" where
  "py_iter (JArr xs) = Inr xs"
| "py_iter (JStr s) = Inr (map (\<lambda>c. JStr [c]) s)"
| "py_iter (JObj kvs) = Inr (map (\<lambda>kv. JStr (fst kv)) kvs)"
| "py_iter x = Inl TypeError"

text \<open>\<^verbatim>\<open>all_transactions.extend(page_data['rows'])\<close> (line 133): the method is looked up
  first, then the argument is evaluated, then the items are appended.\<close>

fun extend_rows :: "json \<Rightarrow> json \<Rightarrow> py_error + json" where
  "extend_rows (JArr xs) page_data =
     (case py_getitem page_data ''rows'' of
        Inl e \<Rightarrow> Inl e
      | Inr v \<Rightarrow> (case py_iter v of Inl e \<Rightarrow> Inl e | Inr ys \<Rightarrow> Inr (JArr (xs @ ys))))"
| "extend_rows x page_data = Inl AttributeError"

text \<open>\<^verbatim>\<open>(total_records + rows_per_page - 1) // rows_per_page\<close> (line 120) on integers;
  Python's \<^verbatim>\<open>//\<close> is floor division, as \<open>div\<close> on \<open>int\<close> is.\<close>

definition total_pages_of :: "int \<Rightarrow> int \<Rightarrow> int" where
  "total_pages_of total_records rows_per_page =
     (total_records + rows_per_page - 1) div rows_per_page"

text \<open>The same expression on the value found under \<^verbatim>\<open>'total'\<close>, followed by
  \<^verbatim>\<open>range(2, total_pages + 1)\<close> (line 128). A bool is an int in Python. A float goes
  through the arithmetic and the print of line 122 and is refused by \<^verbatim>\<open>range\<close>; every
  other type is refused by \<^verbatim>\<open>+\<close>, before the print. The result tells whether the
  print was reached.\<close>

fun page_count :: "json \<Rightarrow> bool \<times> (py_error + int)" where
  "page_count (JInt n) = (True, Inr (total_pages_of n 50))"
| "page_count (JBool b) = (True, Inr (total_pages_of (if b then 1 else 0) 50))"
| "page_count (JFloat r) = (True, Inl TypeError)"
| "page_count x = (False, Inl TypeError)"

section \<open>The network, and the trace of a run\<close>

text \<open>The form fields and cookies of one POST (lines 22-34); \<^verbatim>\<open>edate\<close> is the clock's
  date and belongs to the environment.\<close>

record request =
  p_sdate :: string
  p_account :: string
  p_page :: int
  p_rows :: int
  c_session :: string
  c_hallticket :: string

text \<open>What \<^verbatim>\<open>requests.post\<close> does: it raises a \<^verbatim>\<open>RequestException\<close>, or returns a
  response with a status code and a body, which \<^verbatim>\<open>response.json()\<close> parses (\<open>Some\<close>) or
  rejects with \<^verbatim>\<open>JSONDecodeError\<close> (\<open>None\<close>). The handler of lines 60-74 and the one of
  lines 76-98 go on in the same way, so it does not matter which of them catches the
  parser's exception.\<close>

datatype response =
    RequestException
  | Response int "json option"

text \<open>The remote service: the response to a request at the given attempt of its call.
  A run calls the fetcher at most once for a page, so this loses no behaviour.\<close>

type_synonym network = "request \<Rightarrow> nat \<Rightarrow> response"

datatype msg =
    StatusFailed int nat
  | JsonFailed int nat
  | RequestError int nat "int option"
  | Retrying rat
  | InitialFetchFailed
  | UnexpectedFormat json
  | Found json
  | Fetching int int rat
  | PageFailed int
  | Stopping

datatype event = Sleep rat | Post request | Print msg

text \<open>A run: the events in the order they happen, and the value returned or the
  exception that escapes.\<close>

type_synonym 'a run = "event list \<times> (py_error + 'a)"

definition after :: "event list \<Rightarrow> 'a run \<Rightarrow> 'a run" where
  "after pre r = (pre @ fst r, snd r)"

section \<open>get\_card\_transactions\<close>

text \<open>Lines 51-54, 70-73 and 94-97: announce the pause, sleep, go on with the next
  attempt. \<^verbatim>\<open>time.sleep\<close> raises \<^verbatim>\<open>ValueError\<close> on a negative length.\<close>

definition retry :: "rat \<Rightarrow> json run \<Rightarrow> json run" where
  "retry retry_delay rest =
     (if retry_delay < 0 then ([Print (Retrying retry_delay)], Inl ValueError)
      else after [Print (Retrying retry_delay), Sleep retry_delay] rest)"

text \<open>The loop \<^verbatim>\<open>for attempt in range(max_retries)\<close> of lines 36-100, from the given
  attempt on.\<close>

function attempt_loop ::
  "network \<Rightarrow> request \<Rightarrow> int \<Rightarrow> rat \<Rightarrow> int \<Rightarrow> nat \<Rightarrow> json run" where
  "attempt_loop net req page delay max_retries attempt =
     (if \<not> int attempt < max_retries then ([], Inr JNull)
      else after [Post req]
        (case net req attempt of
           RequestException \<Rightarrow>
             after [Print (RequestError page attempt None)]
               (if int attempt < max_retries - 1
                then retry (delay * (of_nat attempt + 2))
                       (attempt_loop net req page delay max_retries (Suc attempt))
                else ([], Inr JNull))
         | Response status_code body \<Rightarrow>
             if status_code \<noteq> 200 \<and> int attempt < max_retries - 1
             then after [Print (StatusFailed status_code attempt)]
                    (retry (delay * (of_nat attempt + 2))
                       (attempt_loop net req page delay max_retries (Suc attempt)))
             else after (if status_code \<noteq> 200 then [Print (StatusFailed status_code attempt)] else [])
               (if 400 \<le> status_code \<and> status_code < 600
                then after [Print (RequestError page attempt (Some status_code))]
                       (if int attempt < max_retries - 1
                        then retry (delay * (of_nat attempt + 2))
                               (attempt_loop net req page delay max_retries (Suc attempt))
                        else ([], Inr JNull))
                else (case body of
                        Some v \<Rightarrow> ([], Inr v)
                      | None \<Rightarrow>
                          after [Print (JsonFailed page attempt)]
                            (if int attempt < max_retries - 1
                             then retry (delay * (of_nat attempt + 2))
                                    (attempt_loop net req page delay max_retries (Suc attempt))
                             else ([], Inr JNull))))))"
  by pat_completeness auto
termination
  by (relation "measure (\<lambda>(net, req, page, delay, max_retries, attempt). nat (max_retries - int attempt))") auto

declare attempt_loop.simps [simp del]

text \<open>Lines 22-34: the form fields and the cookies of the request.\<close>

definition build_request :: "string \<Rightarrow> string \<Rightarrow> string \<Rightarrow> string \<Rightarrow> int \<Rightarrow> int \<Rightarrow> request" where
  "build_request session_id hall_ticket start_date account page rows =
     \<lparr>p_sdate = start_date, p_account = account, p_page = page, p_rows = rows,
      c_session = session_id, c_hallticket = hall_ticket\<rparr>"

text \<open>Lines 8-100: the pacing pause of lines 15-16, then the attempts.\<close>

definition get_card_transactions ::
  "network \<Rightarrow> string \<Rightarrow> string \<Rightarrow> string \<Rightarrow> string \<Rightarrow> int \<Rightarrow> int \<Rightarrow> rat \<Rightarrow> int \<Rightarrow> json run" where
  "get_card_transactions net session_id hall_ticket start_date account page rows delay max_retries =
     (let req = build_request session_id hall_ticket start_date account page rows
      in if page > 1
         then (if delay < 0 then ([], Inl ValueError)
               else after [Sleep delay] (attempt_loop net req page delay max_retries 0))
         else attempt_loop net req page delay max_retries 0)"

section \<open>get\_all\_transactions\<close>

text \<open>The test \<^verbatim>\<open>page_data and 'rows' in page_data\<close> of line 132.\<close>

definition has_rows :: "json \<Rightarrow> py_error + bool" where
  "has_rows page_data = (if truthy page_data then py_in ''rows'' page_data else Inr False)"

text \<open>The loop \<^verbatim>\<open>for page in range(2, total_pages + 1)\<close> of lines 128-137, from the
  given page on. Pages 2 and later are fetched with the caller's delay and with the
  defaults \<^verbatim>\<open>rows=50\<close>, \<^verbatim>\<open>max_retries=3\<close>.\<close>

function fetch_remaining ::
  "network \<Rightarrow> string \<Rightarrow> string \<Rightarrow> string \<Rightarrow> string \<Rightarrow> rat \<Rightarrow> int \<Rightarrow> int \<Rightarrow> json \<Rightarrow> json run" where
  "fetch_remaining net session_id hall_ticket start_date account delay total_pages page all_transactions =
     (if \<not> page < total_pages + 1 then ([], Inr all_transactions)
      else after [Print (Fetching page total_pages delay)]
        (case get_card_transactions net session_id hall_ticket start_date account page 50 delay 3 of
           (evs, Inl e) \<Rightarrow> (evs, Inl e)
         | (evs, Inr page_data) \<Rightarrow>
             after evs
               (case has_rows page_data of
                  Inl e \<Rightarrow> ([], Inl e)
                | Inr True \<Rightarrow>
                    (case extend_rows all_transactions page_data of
                       Inl e \<Rightarrow> ([], Inl e)
                     | Inr extended \<Rightarrow>
                         fetch_remaining net session_id hall_ticket start_date account delay
                           total_pages (page + 1) extended)
                | Inr False \<Rightarrow>
                    ([Print (PageFailed page), Print Stopping], Inr all_transactions))))"
  by pat_completeness auto
termination
  by (relation "measure (\<lambda>(net, session_id, hall_ticket, start_date, account, delay, total_pages, page, all_transactions). nat (total_pages + 1 - page))") auto

declare fetch_remaining.simps [simp del]

text \<open>Lines 102-139. The first page is fetched with every default of
  \<^verbatim>\<open>get_card_transactions\<close>: \<^verbatim>\<open>page=1\<close>, \<^verbatim>\<open>rows=50\<close>, \<^verbatim>\<open>delay=1.0\<close>, \<^verbatim>\<open>max_retries=3\<close>.\<close>

definition get_all_transactions ::
  "network \<Rightarrow> string \<Rightarrow> string \<Rightarrow> string \<Rightarrow> string \<Rightarrow> rat \<Rightarrow> json run" where
  "get_all_transactions net session_id hall_ticket start_date account delay =
     (case get_card_transactions net session_id hall_ticket start_date account 1 50 1 3 of
        (evs, Inl e) \<Rightarrow> (evs, Inl e)
      | (evs, Inr first_page) \<Rightarrow>
          after evs
            (if \<not> truthy first_page then ([Print InitialFetchFailed], Inr (JArr []))
             else case py_in ''total'' first_page of
                 Inl e \<Rightarrow> ([], Inl e)
               | Inr False \<Rightarrow> ([Print (UnexpectedFormat first_page)], Inr (JArr []))
               | Inr True \<Rightarrow>
                   (case py_get first_page ''total'' (JInt 0) of
                      Inl e \<Rightarrow> ([], Inl e)
                    | Inr total_records \<Rightarrow>
                        (case page_count total_records of
                           (printed, Inl e) \<Rightarrow>
                             (if printed then [Print (Found total_records)] else [], Inl e)
                         | (printed, Inr total_pages) \<Rightarrow>
                             after [Print (Found total_records)]
                               (case py_get first_page ''rows'' (JArr []) of
                                  Inl e \<Rightarrow> ([], Inl e)
                                | Inr all_transactions \<Rightarrow>
                                    fetch_remaining net session_id hall_ticket start_date account
                                      delay total_pages 2 all_transactions)))))"

section \<open>Reading a trace\<close>

text \<open>The requests sent, in order.\<close>

primrec posts :: "event list \<Rightarrow> request list" where
  "posts [] = []"
| "posts (e # es) = (case e of Post r \<Rightarrow> r # posts es | _ \<Rightarrow> posts es)"

text \<open>The requests and the pauses, in order: the trace without what is printed.\<close>

primrec timeline :: "event list \<Rightarrow> event list" where
  "timeline [] = []"
| "timeline (e # es) = (case e of Print m \<Rightarrow> timeline es | _ \<Rightarrow> e # timeline es)"

text \<open>What is printed, in order.\<close>

primrec prints :: "event list \<Rightarrow> msg list" where
  "prints [] = []"
| "prints (e # es) = (case e of Print m \<Rightarrow> m # prints es | _ \<Rightarrow> prints es)"

section \<open>Pages as the driver reads them\<close>

text \<open>The items that line 133 appends for a page: the items of its \<^verbatim>\<open>'rows'\<close>.\<close>

definition page_items :: "json \<Rightarrow> json list" where
  "page_items page_data =
     (case py_getitem page_data ''rows'' of
        Inl e \<Rightarrow> []
      | Inr v \<Rightarrow> (case py_iter v of Inl e \<Rightarrow> [] | Inr ys \<Rightarrow> ys))"

text \<open>A later page that passes the test of line 132 and whose \<^verbatim>\<open>'rows'\<close> can be
  iterated: the page is true in Python's sense, contains \<^verbatim>\<open>'rows'\<close>, and line 133 raises
  nothing.\<close>

definition accepted :: "json \<Rightarrow> bool" where
  "accepted page_data =
     (has_rows page_data = Inr True \<and>
      (case py_getitem page_data ''rows'' of
         Inl e \<Rightarrow> False
       | Inr v \<Rightarrow> (case py_iter v of Inl e \<Rightarrow> False | Inr ys \<Rightarrow> True)))"

text \<open>The events of lines 129-130 for one page: the announcement and the fetch.\<close>

definition page_trace ::
  "network \<Rightarrow> string \<Rightarrow> string \<Rightarrow> string \<Rightarrow> string \<Rightarrow> rat \<Rightarrow> int \<Rightarrow> int \<Rightarrow> event list" where
  "page_trace net session_id hall_ticket start_date account delay total_pages page =
     Print (Fetching page total_pages delay)
       # fst (get_card_transactions net session_id hall_ticket start_date account page 50 delay 3)"

text \<open>The pages of the requests, in order, consecutive requests for one page counted
  once.\<close>

definition pages_requested :: "event list \<Rightarrow> int list" where
  "pages_requested evs = remdups_adj (map p_page (posts evs))"

section \<open>Failure classes of one attempt\<close>

text \<open>An attempt that is followed by another one when attempts remain: the request
  raised, the status is not 200, or the body of a status-200 response does not parse.\<close>

definition retryable :: "response \<Rightarrow> bool" where
  "retryable r = (case r of RequestException \<Rightarrow> True
                  | Response status_code body \<Rightarrow> status_code \<noteq> 200 \<or> body = None)"

text \<open>An attempt that makes the call return \<^verbatim>\<open>None\<close> when it is the last one: the
  request raised, \<^verbatim>\<open>raise_for_status\<close> raised (status 400 to 599), or the body does
  not parse.\<close>

definition fails_finally :: "response \<Rightarrow> bool" where
  "fails_finally r = (case r of RequestException \<Rightarrow> True
                  | Response status_code body \<Rightarrow> (400 \<le> status_code \<and> status_code < 600) \<or> body = None)"

section \<open>The schedule the specification describes\<close>

text \<open>\<open>n\<close> attempts of one call, the first of them with index \<open>i\<close>: before the retry that
  follows attempt \<open>i\<close> the pause is \<open>delay * (i + 2)\<close>, and there is no other pause.\<close>

fun backoff_schedule :: "request \<Rightarrow> rat \<Rightarrow> nat \<Rightarrow> nat \<Rightarrow> event list" where
  "backoff_schedule req delay i 0 = []"
| "backoff_schedule req delay i (Suc 0) = [Post req]"
| "backoff_schedule req delay i (Suc (Suc n)) =
     Post req # Sleep (delay * (of_nat i + 2)) # backoff_schedule req delay (Suc i) (Suc n)"

section \<open>Scripted services\<close>

text \<open>A service that answers the first attempt with status 201 and a well-formed page,
  and is unreachable afterwards.\<close>

definition net_created_then_down :: network where
  "net_created_then_down req attempt =
     (if attempt = 0 then Response 201 (Some (JObj [(''total'', JInt 0), (''rows'', JArr [])]))
      else RequestException)"

text \<open>A service that is unreachable.\<close>

definition net_down :: network where
  "net_down req attempt = RequestException"

text \<open>A service that answers every request with status 200 and the empty object.\<close>

definition net_empty_object :: network where
  "net_empty_object req attempt = Response 200 (Some (JObj []))"

text \<open>A service that answers with status 200 and an object that reports an error.\<close>

definition net_error_object :: network where
  "net_error_object req attempt = Response 200 (Some (JObj [(''error'', JStr ''expired'')]))"

text \<open>A service that fails twice, with status 500 and with a transport error, and then
  answers.\<close>

definition net_flaky :: network where
  "net_flaky req attempt =
     (if attempt = 0 then Response 500 None
      else if attempt = 1 then RequestException
      else Response 200 (Some (JObj [(''total'', JInt 1), (''rows'', JArr [JInt 7])])))"

text \<open>A well-formed page with two records.\<close>

definition sample_page :: "int \<Rightarrow> int \<Rightarrow> json" where
  "sample_page total_records page =
     JObj [(''total'', JInt total_records), (''rows'', JArr [JInt (10 * page + 1), JInt (10 * page + 2)])]"

text \<open>A service that answers every request with the sample page of the requested
  number.\<close>

definition net_paged :: "int \<Rightarrow> network" where
  "net_paged total_records req attempt = Response 200 (Some (sample_page total_records (p_page req)))"

text \<open>A service with 200 records that is unreachable for page 3.\<close>

definition net_third_page_down :: network where
  "net_third_page_down req attempt =
     (if p_page req = 3 then RequestException
      else Response 200 (Some (sample_page 200 (p_page req))))"

text \<open>A service whose page has records and no \<^verbatim>\<open>'total'\<close>.\<close>

definition net_rows_without_total :: network where
  "net_rows_without_total req attempt = Response 200 (Some (JObj [(''rows'', JArr [JInt 11, JInt 12])]))"

text \<open>A service with no records.\<close>

definition net_zero_total :: network where
  "net_zero_total req attempt = Response 200 (Some (JObj [(''total'', JInt 0), (''rows'', JArr [])]))"

section \<open>Basic facts\<close>

lemma after_Nil [simp]: "after [] r = r"
  by (simp add: after_def)

lemma after_after [simp]: "after xs (after ys r) = after (xs @ ys) r"
  by (simp add: after_def)

lemma fst_after [simp]: "fst (after xs r) = xs @ fst r"
  by (simp add: after_def)

lemma snd_after [simp]: "snd (after xs r) = snd r"
  by (simp add: after_def)

lemma posts_append [simp]: "posts (xs @ ys) = posts xs @ posts ys"
  by (induction xs) (auto split: event.splits)

lemma timeline_append [simp]: "timeline (xs @ ys) = timeline xs @ timeline ys"
  by (induction xs) (auto split: event.splits)

lemma prints_append [simp]: "prints (xs @ ys) = prints xs @ prints ys"
  by (induction xs) (auto split: event.splits)

lemma timeline_map_Print [simp]: "timeline (map Print ms) = []"
  by (induction ms) auto

lemma posts_map_Print [simp]: "posts (map Print ms) = []"
  by (induction ms) auto

lemma p_page_build_request [simp]:
  "p_page (build_request session_id hall_ticket start_date account page rows) = page"
  by (simp add: build_request_def)

lemma backoff_nonneg: "0 \<le> delay \<Longrightarrow> \<not> delay * (of_nat attempt + 2) < (0::rat)"
  by (simp add: not_less)

lemma fst_retry: "0 \<le> d \<Longrightarrow> fst (retry d r) = [Print (Retrying d), Sleep d] @ fst r"
  by (simp add: retry_def)

lemma snd_retry: "0 \<le> d \<Longrightarrow> snd (retry d r) = snd r"
  by (simp add: retry_def)

lemma posts_retry: "posts (fst (retry d r)) = (if d < 0 then [] else posts (fst r))"
  by (simp add: retry_def)

section \<open>The attempt loop\<close>

text \<open>Induction along \<^verbatim>\<open>range(max_retries)\<close>, downwards from the end of the range.\<close>

lemma attempt_induct [consumes 0, case_names exhausted step]:
  assumes "\<And>attempt. \<not> int attempt < max_retries \<Longrightarrow> P attempt"
    and "\<And>attempt. int attempt < max_retries \<Longrightarrow> P (Suc attempt) \<Longrightarrow> P attempt"
  shows "P (attempt::nat)"
proof (induction "nat (max_retries - int attempt)" arbitrary: attempt)
  case 0
  then show ?case using assms(1) by simp
next
  case (Suc n)
  show ?case
  proof (cases "int attempt < max_retries")
    case True
    have "n = nat (max_retries - int (Suc attempt))" using Suc.hyps(2) by simp
    then have "P (Suc attempt)" by (rule Suc.hyps(1))
    with True show ?thesis by (rule assms(2))
  next
    case False
    then show ?thesis by (rule assms(1))
  qed
qed

lemma attempt_loop_done:
  "\<not> int attempt < max_retries \<Longrightarrow>
     attempt_loop net req page delay max_retries attempt = ([], Inr JNull)"
  by (subst attempt_loop.simps) simp

lemma attempt_loop_posts_le:
  "length (posts (fst (attempt_loop net req page delay max_retries attempt)))
     \<le> nat (max_retries - int attempt)"
proof (induction attempt rule: attempt_induct [where max_retries = max_retries])
  case (exhausted attempt)
  then show ?case by (simp add: attempt_loop_done)
next
  case (step attempt)
  have "Suc (nat (max_retries - int (Suc attempt))) = nat (max_retries - int attempt)"
    using step.hyps by simp
  with step.IH
  have "Suc (length (posts (fst (attempt_loop net req page delay max_retries (Suc attempt)))))
      \<le> nat (max_retries - int attempt)" by simp
  then show ?case
    by (subst attempt_loop.simps) (auto simp: posts_retry split: response.splits option.splits)
qed

lemma attempt_loop_posts_set:
  "set (posts (fst (attempt_loop net req page delay max_retries attempt))) \<subseteq> {req}"
proof (induction attempt rule: attempt_induct [where max_retries = max_retries])
  case (exhausted attempt)
  then show ?case by (simp add: attempt_loop_done)
next
  case (step attempt)
  then show ?case
    by (subst attempt_loop.simps)
       (auto simp: posts_retry split: response.splits option.splits if_splits)
qed

lemma attempt_loop_posts_first:
  "int attempt < max_retries \<Longrightarrow>
     1 \<le> length (posts (fst (attempt_loop net req page delay max_retries attempt)))"
  by (subst attempt_loop.simps) simp

lemma attempt_loop_returns:
  "0 \<le> delay \<Longrightarrow>
     \<exists>v. snd (attempt_loop net req page delay max_retries attempt) = Inr v
       \<and> (v = JNull \<or> (\<exists>i status. attempt \<le> i \<and> int i < max_retries
                            \<and> net req i = Response status (Some v)))"
proof (induction attempt rule: attempt_induct [where max_retries = max_retries])
  case (exhausted attempt)
  then show ?case by (simp add: attempt_loop_done)
next
  case (step attempt)
  then obtain v where v: "snd (attempt_loop net req page delay max_retries (Suc attempt)) = Inr v"
    and src: "v = JNull \<or> (\<exists>i status. attempt \<le> i \<and> int i < max_retries
                \<and> net req i = Response status (Some v))"
    using Suc_leD by blast
  have here: "\<And>status w. net req attempt = Response status (Some w) \<Longrightarrow>
      \<exists>i status. attempt \<le> i \<and> int i < max_retries \<and> net req i = Response status (Some w)"
    using step.hyps by blast
  show ?case
    apply (subst attempt_loop.simps)
    using v src here step.prems
    apply (simp add: snd_retry backoff_nonneg not_less split: response.splits option.splits)
    done
qed

lemma attempt_loop_success:
  "int attempt < max_retries \<Longrightarrow> net req attempt = Response 200 (Some v) \<Longrightarrow>
     attempt_loop net req page delay max_retries attempt = ([Post req], Inr v)"
  by (subst attempt_loop.simps) (simp add: after_def)

lemma attempt_loop_retry:
  assumes "0 \<le> delay" "int attempt < max_retries - 1" "retryable (net req attempt)"
  shows "\<exists>diag. attempt_loop net req page delay max_retries attempt =
           after (Post req # map Print diag @
                  [Print (Retrying (delay * (of_nat attempt + 2))), Sleep (delay * (of_nat attempt + 2))])
             (attempt_loop net req page delay max_retries (Suc attempt))"
proof (cases "net req attempt")
  case RequestException
  have "attempt_loop net req page delay max_retries attempt =
           after (Post req # map Print [RequestError page attempt None] @
                  [Print (Retrying (delay * (of_nat attempt + 2))), Sleep (delay * (of_nat attempt + 2))])
             (attempt_loop net req page delay max_retries (Suc attempt))"
    using assms RequestException
    by (subst attempt_loop.simps) (simp add: retry_def backoff_nonneg)
  then show ?thesis by blast
next
  case (Response status_code body)
  show ?thesis
  proof (cases "status_code = 200")
    case True
    with assms(3) Response have body: "body = None" by (simp add: retryable_def)
    have "attempt_loop net req page delay max_retries attempt =
           after (Post req # map Print [JsonFailed page attempt] @
                  [Print (Retrying (delay * (of_nat attempt + 2))), Sleep (delay * (of_nat attempt + 2))])
             (attempt_loop net req page delay max_retries (Suc attempt))"
      using assms Response True body
      by (subst attempt_loop.simps) (simp add: retry_def backoff_nonneg)
    then show ?thesis by blast
  next
    case False
    have "attempt_loop net req page delay max_retries attempt =
           after (Post req # map Print [StatusFailed status_code attempt] @
                  [Print (Retrying (delay * (of_nat attempt + 2))), Sleep (delay * (of_nat attempt + 2))])
             (attempt_loop net req page delay max_retries (Suc attempt))"
      using assms Response False
      by (subst attempt_loop.simps) (simp add: retry_def backoff_nonneg)
    then show ?thesis by blast
  qed
qed

lemma attempt_loop_last_failure:
  assumes "int attempt < max_retries" "\<not> int attempt < max_retries - 1" "fails_finally (net req attempt)"
  shows "\<exists>diag. attempt_loop net req page delay max_retries attempt = (Post req # map Print diag, Inr JNull)"
proof (cases "net req attempt")
  case RequestException
  have "attempt_loop net req page delay max_retries attempt =
      (Post req # map Print [RequestError page attempt None], Inr JNull)"
    using assms RequestException by (subst attempt_loop.simps) (simp add: after_def)
  then show ?thesis by blast
next
  case (Response status_code body)
  show ?thesis
  proof (cases "400 \<le> status_code \<and> status_code < 600")
    case True
    have "attempt_loop net req page delay max_retries attempt =
      (Post req # map Print [StatusFailed status_code attempt, RequestError page attempt (Some status_code)], Inr JNull)"
      using assms Response True by (subst attempt_loop.simps) (auto simp add: after_def)
    then show ?thesis by blast
  next
    case False
    with assms(3) Response have body: "body = None" by (auto simp add: fails_finally_def)
    have "attempt_loop net req page delay max_retries attempt =
      (Post req # map Print ((if status_code \<noteq> 200 then [StatusFailed status_code attempt] else []) @ [JsonFailed page attempt]), Inr JNull)"
      using assms Response False body by (subst attempt_loop.simps) (auto simp add: after_def)
    then show ?thesis by blast
  qed
qed

lemma attempt_loop_skip:
  assumes "0 \<le> delay" "int i < max_retries" "\<forall>j. a \<le> j \<and> j < i \<longrightarrow> retryable (net req j)"
  shows "a \<le> i \<Longrightarrow>
         snd (attempt_loop net req page delay max_retries a) = snd (attempt_loop net req page delay max_retries i)
       \<and> posts (fst (attempt_loop net req page delay max_retries a))
           = replicate (i - a) req @ posts (fst (attempt_loop net req page delay max_retries i))"
  using assms(3)
proof (induction "i - a" arbitrary: a)
  case 0
  then show ?case by simp
next
  case (Suc n)
  then have lt: "a < i" and n: "n = i - Suc a" by simp_all
  have "int a < max_retries - 1" using lt assms(2) by simp
  moreover have "retryable (net req a)" using Suc.prems lt by simp
  ultimately obtain diag where step:
      "attempt_loop net req page delay max_retries a =
           after (Post req # map Print diag @
                  [Print (Retrying (delay * (of_nat a + 2))), Sleep (delay * (of_nat a + 2))])
             (attempt_loop net req page delay max_retries (Suc a))"
    using attempt_loop_retry [OF assms(1)] by blast
  have IH: "snd (attempt_loop net req page delay max_retries (Suc a)) = snd (attempt_loop net req page delay max_retries i)
       \<and> posts (fst (attempt_loop net req page delay max_retries (Suc a)))
           = replicate (i - Suc a) req @ posts (fst (attempt_loop net req page delay max_retries i))"
    using Suc.hyps(1) [OF n] lt Suc.prems by simp
  have "Suc (i - Suc a) = i - a" using lt by simp
  then have "req # replicate (i - Suc a) req = replicate (i - a) req"
    by (metis replicate_Suc)
  with IH show ?case
    by (simp add: step)
qed

lemma attempt_loop_cases [consumes 2, case_names returned retried]:
  assumes "0 \<le> delay" "int attempt < max_retries"
  obtains diag v where
      "attempt_loop net req page delay max_retries attempt = (Post req # map Print diag, Inr v)"
    | diag where "int attempt < max_retries - 1" "retryable (net req attempt)"
      "attempt_loop net req page delay max_retries attempt =
           after (Post req # map Print diag @
                  [Print (Retrying (delay * (of_nat attempt + 2))), Sleep (delay * (of_nat attempt + 2))])
             (attempt_loop net req page delay max_retries (Suc attempt))"
proof (cases "int attempt < max_retries - 1 \<and> retryable (net req attempt)")
  case True
  then show ?thesis using attempt_loop_retry [OF assms(1), of attempt max_retries net req page] that(2) by blast
next
  case False
  show ?thesis
  proof (cases "int attempt < max_retries - 1")
    case True
    with False have "\<not> retryable (net req attempt)" by simp
    then obtain v where "net req attempt = Response 200 (Some v)"
      by (auto simp: retryable_def split: response.splits)
    then have "attempt_loop net req page delay max_retries attempt = (Post req # map Print [], Inr v)"
      using assms(2) by (simp add: attempt_loop_success)
    then show ?thesis by (rule that(1))
  next
    case last: False
    show ?thesis
    proof (cases "fails_finally (net req attempt)")
      case True
      then show ?thesis using attempt_loop_last_failure [OF assms(2) last] that(1) by blast
    next
      case False
      then obtain status_code v where r: "net req attempt = Response status_code (Some v)"
        and st: "\<not> (400 \<le> status_code \<and> status_code < 600)"
        by (auto simp: fails_finally_def split: response.splits)
      have "attempt_loop net req page delay max_retries attempt =
        (Post req # map Print (if status_code \<noteq> 200 then [StatusFailed status_code attempt] else []), Inr v)"
        using assms(2) last r st by (subst attempt_loop.simps) (auto simp: after_def)
      then show ?thesis by (rule that(1))
    qed
  qed
qed

lemma attempt_loop_timeline:
  assumes "0 \<le> delay"
  shows "timeline (fst (attempt_loop net req page delay max_retries attempt))
     = backoff_schedule req delay attempt
         (length (posts (fst (attempt_loop net req page delay max_retries attempt))))"
proof (induction attempt rule: attempt_induct [where max_retries = max_retries])
  case (exhausted attempt)
  then show ?case by (simp add: attempt_loop_done)
next
  case (step attempt)
  from assms step.hyps show ?case
  proof (cases rule: attempt_loop_cases [where net = net and req = req and page = page])
    case (returned diag v)
    then show ?thesis by simp
  next
    case (retried diag)
    have "int (Suc attempt) < max_retries" using retried(1) by simp
    then have "1 \<le> length (posts (fst (attempt_loop net req page delay max_retries (Suc attempt))))"
      by (rule attempt_loop_posts_first)
    then obtain n where n: "length (posts (fst (attempt_loop net req page delay max_retries (Suc attempt)))) = Suc n"
      by (cases "length (posts (fst (attempt_loop net req page delay max_retries (Suc attempt))))") simp_all
    show ?thesis
      using step.IH n by (simp add: retried(3))
  qed
qed

lemma get_card_transactions_posts_set:
  "set (posts (fst (get_card_transactions net session_id hall_ticket start_date account page rows delay max_retries)))
     \<subseteq> {build_request session_id hall_ticket start_date account page rows}"
  using attempt_loop_posts_set [of net "build_request session_id hall_ticket start_date account page rows" page delay max_retries 0]
  by (simp add: get_card_transactions_def Let_def)

lemma get_card_transactions_pages:
  "set (map p_page (posts (fst (get_card_transactions net session_id hall_ticket start_date account page rows delay max_retries))))
     \<subseteq> {page}"
  using get_card_transactions_posts_set [of net session_id hall_ticket start_date account page rows delay max_retries]
  by auto

section \<open>The fetcher is bounded and total\<close>

text \<open>
  C8. A call of \<^verbatim>\<open>get_card_transactions\<close> with \<open>max_retries \<ge> 1\<close> sends at most
  \<open>max_retries\<close> requests, all of them the request built from its arguments. With a
  delay that is not negative it sends at least one, and it returns a value: \<^verbatim>\<open>None\<close>,
  or the parsed body of one of the responses it received. No exception of the transport
  or of the parser escapes. The attempt loop is a total function, so the call terminates.
\<close>

theorem get_card_transactions_bounded:
  assumes "1 \<le> max_retries"
  shows "length (posts (fst (get_card_transactions net session_id hall_ticket start_date account
              page rows delay max_retries))) \<le> nat max_retries
       \<and> set (posts (fst (get_card_transactions net session_id hall_ticket start_date account
              page rows delay max_retries)))
            \<subseteq> {build_request session_id hall_ticket start_date account page rows}
       \<and> (0 \<le> delay \<longrightarrow>
            1 \<le> length (posts (fst (get_card_transactions net session_id hall_ticket start_date
                    account page rows delay max_retries)))
          \<and> (\<exists>v. snd (get_card_transactions net session_id hall_ticket start_date account
                    page rows delay max_retries) = Inr v
               \<and> (v = JNull \<or> (\<exists>i status. int i < max_retries
                      \<and> net (build_request session_id hall_ticket start_date account page rows) i
                          = Response status (Some v)))))"
proof -
  let ?req = "build_request session_id hall_ticket start_date account page rows"
  let ?loop = "attempt_loop net ?req page delay max_retries 0"
  have le: "length (posts (fst ?loop)) \<le> nat max_retries"
    using attempt_loop_posts_le [of net ?req page delay max_retries 0] by simp
  have sub: "set (posts (fst ?loop)) \<subseteq> {?req}"
    by (rule attempt_loop_posts_set)
  have one: "1 \<le> length (posts (fst ?loop))"
    using assms by (intro attempt_loop_posts_first) simp
  have ret: "0 \<le> delay \<Longrightarrow> \<exists>v. snd ?loop = Inr v
      \<and> (v = JNull \<or> (\<exists>i status. int i < max_retries \<and> net ?req i = Response status (Some v)))"
    using attempt_loop_returns [of delay net ?req page max_retries 0] by simp
  show ?thesis
    using le sub one ret
    by (simp add: get_card_transactions_def Let_def not_less)
qed

theorem get_card_transactions_bounded_witness:
  "(1::int) \<le> 3 \<and> (0::rat) \<le> 1
   \<and> length (posts (fst (get_card_transactions net_created_then_down ''s'' ''h'' ''d'' ''a''
          2 50 1 3))) = 3
   \<and> snd (get_card_transactions net_created_then_down ''s'' ''h'' ''d'' ''a'' 2 50 1 3) = Inr JNull"
proof -
  have h: "(1::int) \<le> 3" by simp
  note get_card_transactions_bounded [OF h, of net_created_then_down "''s''" "''h''" "''d''" "''a''" 2 50 1]
  then show ?thesis
    by (simp add: get_card_transactions_def Let_def build_request_def net_created_then_down_def
          attempt_loop.simps retry_def after_def)
qed

section \<open>Pauses\<close>

text \<open>
  C6. In a call of \<^verbatim>\<open>get_card_transactions\<close> with a delay that is not negative, the
  requests and pauses are: the pacing pause of \<open>delay\<close> seconds when the page is greater
  than 1 and no pause otherwise, then the attempts, with a pause of \<open>delay * (i + 2)\<close>
  between attempt \<open>i\<close> and attempt \<open>i + 1\<close> and no other pause. Every retryable failure
  at attempt \<open>i\<close> with attempts remaining is followed by attempt \<open>i + 1\<close>, hence by that
  pause. Durations are exact rationals here.
\<close>

theorem backoff_and_pacing:
  assumes "0 \<le> delay"
  shows "timeline (fst (get_card_transactions net session_id hall_ticket start_date account page rows delay max_retries))
           = (if page > 1 then [Sleep delay] else [])
             @ backoff_schedule (build_request session_id hall_ticket start_date account page rows) delay 0
                 (length (posts (fst (get_card_transactions net session_id hall_ticket start_date account
                     page rows delay max_retries))))
       \<and> (\<forall>i. int i < max_retries - 1
               \<and> (\<forall>j\<le>i. retryable (net (build_request session_id hall_ticket start_date account page rows) j))
            \<longrightarrow> i + 2 \<le> length (posts (fst (get_card_transactions net session_id hall_ticket start_date
                     account page rows delay max_retries))))"
proof -
  let ?req = "build_request session_id hall_ticket start_date account page rows"
  let ?loop = "attempt_loop net ?req page delay max_retries"
  have tl: "timeline (fst (?loop 0)) = backoff_schedule ?req delay 0 (length (posts (fst (?loop 0))))"
    using assms by (rule attempt_loop_timeline)
  have next_attempt: "i + 2 \<le> length (posts (fst (?loop 0)))"
    if i: "int i < max_retries - 1" and fail: "\<forall>j\<le>i. retryable (net ?req j)" for i
  proof -
    have lt: "int (Suc i) < max_retries" using i by simp
    have "\<forall>j. 0 \<le> j \<and> j < Suc i \<longrightarrow> retryable (net ?req j)" using fail by simp
    with assms lt
    have "posts (fst (?loop 0)) = replicate (Suc i) ?req @ posts (fst (?loop (Suc i)))"
      using attempt_loop_skip [where net = net and req = ?req and a = 0 and i = "Suc i"
          and delay = delay and max_retries = max_retries and page = page] by simp
    moreover have "1 \<le> length (posts (fst (?loop (Suc i))))"
      using lt by (rule attempt_loop_posts_first)
    ultimately show ?thesis by simp
  qed
  show ?thesis
    using assms tl next_attempt
    by (simp add: get_card_transactions_def Let_def not_less)
qed

theorem backoff_and_pacing_witness:
  "(0::rat) \<le> 1 / 2
   \<and> timeline (fst (get_card_transactions net_flaky ''s'' ''h'' ''d'' ''a'' 2 50 (1 / 2) 3))
       = [Sleep (1 / 2), Post (build_request ''s'' ''h'' ''d'' ''a'' 2 50),
          Sleep 1, Post (build_request ''s'' ''h'' ''d'' ''a'' 2 50),
          Sleep (3 / 2), Post (build_request ''s'' ''h'' ''d'' ''a'' 2 50)]"
proof -
  have h: "(0::rat) \<le> 1 / 2" by simp
  have n: "length (posts (fst (get_card_transactions net_flaky ''s'' ''h'' ''d'' ''a'' 2 50 (1 / 2) 3))) = Suc (Suc (Suc 0))"
    by (simp add: get_card_transactions_def Let_def net_flaky_def attempt_loop.simps retry_def after_def)
  from backoff_and_pacing [OF h, of net_flaky "''s''" "''h''" "''d''" "''a''" 2 50 3]
  show ?thesis
    by (simp add: n)
qed

section \<open>Classification of an attempt\<close>

text \<open>
  C7, as the code has it. Let attempts \<open>0\<close> to \<open>i - 1\<close> of a call be retryable failures
  (transport error, status other than 200, or a status-200 body that does not parse).
  If attempt \<open>i\<close> gets status 200 and a well-formed body, the call returns the parsed body
  of that attempt and sends no further request. If attempt \<open>i\<close> is a retryable failure
  and attempts remain, attempt \<open>i + 1\<close> is made. If attempt \<open>i\<close> is the last one and ends
  in a transport error, a status from 400 to 599 or a body that does not parse, the call
  returns \<^verbatim>\<open>None\<close>.
\<close>

theorem attempt_classification:
  assumes "0 \<le> delay" and "int i < max_retries"
    and "\<forall>j<i. retryable (net (build_request session_id hall_ticket start_date account page rows) j)"
  shows "(\<forall>v. net (build_request session_id hall_ticket start_date account page rows) i = Response 200 (Some v)
            \<longrightarrow> snd (get_card_transactions net session_id hall_ticket start_date account page rows delay max_retries) = Inr v
              \<and> length (posts (fst (get_card_transactions net session_id hall_ticket start_date account
                     page rows delay max_retries))) = Suc i)
       \<and> (int (Suc i) < max_retries
            \<and> retryable (net (build_request session_id hall_ticket start_date account page rows) i)
            \<longrightarrow> Suc (Suc i) \<le> length (posts (fst (get_card_transactions net session_id hall_ticket start_date
                     account page rows delay max_retries))))
       \<and> (int (Suc i) = max_retries
            \<and> fails_finally (net (build_request session_id hall_ticket start_date account page rows) i)
            \<longrightarrow> snd (get_card_transactions net session_id hall_ticket start_date account page rows delay max_retries) = Inr JNull
              \<and> length (posts (fst (get_card_transactions net session_id hall_ticket start_date account
                     page rows delay max_retries))) = Suc i)"
proof -
  let ?req = "build_request session_id hall_ticket start_date account page rows"
  let ?loop = "attempt_loop net ?req page delay max_retries"
  have gct: "snd (get_card_transactions net session_id hall_ticket start_date account page rows delay max_retries)
               = snd (?loop 0)"
       "posts (fst (get_card_transactions net session_id hall_ticket start_date account page rows delay max_retries))
               = posts (fst (?loop 0))"
    using assms(1) by (simp_all add: get_card_transactions_def Let_def not_less)
  have "\<forall>j. 0 \<le> j \<and> j < i \<longrightarrow> retryable (net ?req j)" using assms(3) by simp
  with assms(1,2)
  have skip: "snd (?loop 0) = snd (?loop i)"
       "posts (fst (?loop 0)) = replicate i ?req @ posts (fst (?loop i))"
    using attempt_loop_skip [where net = net and req = ?req and a = 0 and i = i
          and delay = delay and max_retries = max_retries and page = page] by simp_all
  have success: "snd (?loop 0) = Inr v \<and> length (posts (fst (?loop 0))) = Suc i"
    if "net ?req i = Response 200 (Some v)" for v
    using assms(2) that skip
      attempt_loop_success [where net = net and req = ?req and attempt = i and v = v
          and max_retries = max_retries and page = page and delay = delay] by simp
  have again: "Suc (Suc i) \<le> length (posts (fst (?loop 0)))"
    if more: "int (Suc i) < max_retries" and r: "retryable (net ?req i)"
  proof -
    have "int i < max_retries - 1" using more by simp
    with assms(1) r
    obtain diag where "?loop i = after (Post ?req # map Print diag @
        [Print (Retrying (delay * (of_nat i + 2))), Sleep (delay * (of_nat i + 2))]) (?loop (Suc i))"
      using attempt_loop_retry [where net = net and req = ?req and attempt = i
          and max_retries = max_retries and page = page and delay = delay] by blast
    then have "posts (fst (?loop i)) = ?req # posts (fst (?loop (Suc i)))" by simp
    moreover have "1 \<le> length (posts (fst (?loop (Suc i))))"
      using more by (rule attempt_loop_posts_first)
    ultimately show ?thesis using skip(2) by simp
  qed
  have final: "snd (?loop 0) = Inr JNull \<and> length (posts (fst (?loop 0))) = Suc i"
    if last: "int (Suc i) = max_retries" and f: "fails_finally (net ?req i)"
  proof -
    have "\<not> int i < max_retries - 1" using last by simp
    with assms(2) f
    obtain diag where "?loop i = (Post ?req # map Print diag, Inr JNull)"
      using attempt_loop_last_failure [where net = net and req = ?req and attempt = i
          and max_retries = max_retries and page = page and delay = delay] by blast
    then show ?thesis using skip by simp
  qed
  show ?thesis
    unfolding gct using success again final by blast
qed

theorem attempt_classification_witness:
  "retryable (net_flaky (build_request ''s'' ''h'' ''d'' ''a'' 1 50) 0)
   \<and> retryable (net_flaky (build_request ''s'' ''h'' ''d'' ''a'' 1 50) 1)
   \<and> net_flaky (build_request ''s'' ''h'' ''d'' ''a'' 1 50) 2
       = Response 200 (Some (JObj [(''total'', JInt 1), (''rows'', JArr [JInt 7])]))
   \<and> snd (get_card_transactions net_flaky ''s'' ''h'' ''d'' ''a'' 1 50 1 3)
       = Inr (JObj [(''total'', JInt 1), (''rows'', JArr [JInt 7])])
   \<and> length (posts (fst (get_card_transactions net_flaky ''s'' ''h'' ''d'' ''a'' 1 50 1 3))) = 3
   \<and> retryable (net_down (build_request ''s'' ''h'' ''d'' ''a'' 1 50) 0)
   \<and> 2 \<le> length (posts (fst (get_card_transactions net_down ''s'' ''h'' ''d'' ''a'' 1 50 1 3)))
   \<and> fails_finally (net_down (build_request ''s'' ''h'' ''d'' ''a'' 1 50) 2)
   \<and> snd (get_card_transactions net_down ''s'' ''h'' ''d'' ''a'' 1 50 1 3) = Inr JNull"
proof -
  let ?req = "build_request ''s'' ''h'' ''d'' ''a'' 1 50"
  have d: "(0::rat) \<le> 1" by simp
  have flaky: "\<forall>j<2. retryable (net_flaky ?req j)"
    by (auto simp: retryable_def net_flaky_def)
  have down: "\<forall>j<n. retryable (net_down ?req j)" for n
    by (simp add: retryable_def net_down_def)
  have i2: "int 2 < 3" and i0: "int 0 < 3" by simp_all
  note a = attempt_classification [where net = net_flaky and session_id = "''s''"
        and hall_ticket = "''h''" and start_date = "''d''" and account = "''a''" and page = 1
        and rows = 50 and delay = 1 and max_retries = 3 and i = 2]
    and b = attempt_classification [where net = net_down and session_id = "''s''"
        and hall_ticket = "''h''" and start_date = "''d''" and account = "''a''" and page = 1
        and rows = 50 and delay = 1 and max_retries = 3 and i = 0]
    and c = attempt_classification [where net = net_down and session_id = "''s''"
        and hall_ticket = "''h''" and start_date = "''d''" and account = "''a''" and page = 1
        and rows = 50 and delay = 1 and max_retries = 3 and i = 2]
  show ?thesis
    using a b c flaky down [of 0] down [of 2]
    by (simp add: net_flaky_def net_down_def retryable_def fails_finally_def)
qed

text \<open>Status 201 is a 2xx status. The first attempt below gets it with a well-formed
  body; the call does not return that body but retries, and ends with \<^verbatim>\<open>None\<close> after
  three requests.\<close>

theorem success_on_201_counterexample:
  "net_created_then_down (build_request ''s'' ''h'' ''d'' ''a'' 1 50) 0
       = Response 201 (Some (JObj [(''total'', JInt 0), (''rows'', JArr [])]))
   \<and> snd (get_card_transactions net_created_then_down ''s'' ''h'' ''d'' ''a'' 1 50 1 3) = Inr JNull
   \<and> length (posts (fst (get_card_transactions net_created_then_down ''s'' ''h'' ''d'' ''a'' 1 50 1 3))) = 3"
  by (simp add: get_card_transactions_def Let_def net_created_then_down_def
        attempt_loop.simps retry_def after_def)

section \<open>The first page\<close>

lemma get_all_transactions_falsy:
  assumes "snd (get_card_transactions net session_id hall_ticket start_date account 1 50 1 3) = Inr first_page"
    and "\<not> truthy first_page"
  shows "get_all_transactions net session_id hall_ticket start_date account delay
     = (fst (get_card_transactions net session_id hall_ticket start_date account 1 50 1 3)
          @ [Print InitialFetchFailed], Inr (JArr []))"
proof -
  obtain evs where "get_card_transactions net session_id hall_ticket start_date account 1 50 1 3
      = (evs, Inr first_page)"
    using assms(1) by (cases "get_card_transactions net session_id hall_ticket start_date account 1 50 1 3") auto
  then show ?thesis
    using assms(2) by (simp add: get_all_transactions_def after_def)
qed

lemma get_all_transactions_no_total:
  assumes "snd (get_card_transactions net session_id hall_ticket start_date account 1 50 1 3) = Inr first_page"
    and "truthy first_page" and "py_in ''total'' first_page = Inr False"
  shows "get_all_transactions net session_id hall_ticket start_date account delay
     = (fst (get_card_transactions net session_id hall_ticket start_date account 1 50 1 3)
          @ [Print (UnexpectedFormat first_page)], Inr (JArr []))"
proof -
  obtain evs where "get_card_transactions net session_id hall_ticket start_date account 1 50 1 3
      = (evs, Inr first_page)"
    using assms(1) by (cases "get_card_transactions net session_id hall_ticket start_date account 1 50 1 3") auto
  then show ?thesis
    using assms(2,3) by (simp add: get_all_transactions_def after_def)
qed

text \<open>
  C4. When the fetch of page 1 returns \<^verbatim>\<open>None\<close>, \<^verbatim>\<open>get_all_transactions\<close> returns the
  empty list, the last thing it prints is that the initial fetch failed, and its trace is
  the trace of that one fetch followed by this message: every request of the run is for
  page 1.
\<close>

theorem first_page_failure:
  assumes "snd (get_card_transactions net session_id hall_ticket start_date account 1 50 1 3) = Inr JNull"
  shows "get_all_transactions net session_id hall_ticket start_date account delay
           = (fst (get_card_transactions net session_id hall_ticket start_date account 1 50 1 3)
                @ [Print InitialFetchFailed], Inr (JArr []))
       \<and> set (map p_page (posts (fst (get_all_transactions net session_id hall_ticket start_date
                 account delay)))) \<subseteq> {1}"
proof -
  have run: "get_all_transactions net session_id hall_ticket start_date account delay
           = (fst (get_card_transactions net session_id hall_ticket start_date account 1 50 1 3)
                @ [Print InitialFetchFailed], Inr (JArr []))"
    using assms by (rule get_all_transactions_falsy) simp
  show ?thesis
    using get_card_transactions_pages [of net session_id hall_ticket start_date account 1 50 1 3]
    by (simp add: run)
qed

theorem first_page_failure_witness:
  "snd (get_card_transactions net_down ''s'' ''h'' ''d'' ''a'' 1 50 1 3) = Inr JNull
   \<and> snd (get_all_transactions net_down ''s'' ''h'' ''d'' ''a'' 5) = Inr (JArr [])
   \<and> prints (fst (get_all_transactions net_down ''s'' ''h'' ''d'' ''a'' 5))
       = [RequestError 1 0 None, Retrying 2, RequestError 1 1 None, Retrying 3,
          RequestError 1 2 None, InitialFetchFailed]
   \<and> map p_page (posts (fst (get_all_transactions net_down ''s'' ''h'' ''d'' ''a'' 5))) = [1, 1, 1]"
proof -
  have h: "snd (get_card_transactions net_down ''s'' ''h'' ''d'' ''a'' 1 50 1 3) = Inr JNull"
    by (simp add: get_card_transactions_def Let_def net_down_def attempt_loop.simps retry_def after_def)
  from first_page_failure [OF h, of 5] h show ?thesis
    by (simp add: get_card_transactions_def Let_def net_down_def attempt_loop.simps retry_def after_def)
qed

text \<open>
  C5, as the code has it. When the fetch of page 1 returns a value that is true in
  Python's sense (for an object: not empty) and does not contain \<^verbatim>\<open>'total'\<close>,
  \<^verbatim>\<open>get_all_transactions\<close> returns the empty list and prints that the response format is
  unexpected. Its requests are those of the fetch of page 1: nothing is retried and no
  other page is requested.
\<close>

theorem first_page_without_total:
  assumes "snd (get_card_transactions net session_id hall_ticket start_date account 1 50 1 3) = Inr first_page"
    and "truthy first_page" and "py_in ''total'' first_page = Inr False"
  shows "get_all_transactions net session_id hall_ticket start_date account delay
           = (fst (get_card_transactions net session_id hall_ticket start_date account 1 50 1 3)
                @ [Print (UnexpectedFormat first_page)], Inr (JArr []))
       \<and> posts (fst (get_all_transactions net session_id hall_ticket start_date account delay))
           = posts (fst (get_card_transactions net session_id hall_ticket start_date account 1 50 1 3))
       \<and> set (map p_page (posts (fst (get_all_transactions net session_id hall_ticket start_date
                 account delay)))) \<subseteq> {1}"
proof -
  have run: "get_all_transactions net session_id hall_ticket start_date account delay
           = (fst (get_card_transactions net session_id hall_ticket start_date account 1 50 1 3)
                @ [Print (UnexpectedFormat first_page)], Inr (JArr []))"
    using assms by (rule get_all_transactions_no_total)
  show ?thesis
    using get_card_transactions_pages [of net session_id hall_ticket start_date account 1 50 1 3]
    by (simp add: run)
qed

theorem first_page_without_total_witness:
  "snd (get_card_transactions net_error_object ''s'' ''h'' ''d'' ''a'' 1 50 1 3)
       = Inr (JObj [(''error'', JStr ''expired'')])
   \<and> truthy (JObj [(''error'', JStr ''expired'')])
   \<and> py_in ''total'' (JObj [(''error'', JStr ''expired'')]) = Inr False
   \<and> get_all_transactions net_error_object ''s'' ''h'' ''d'' ''a'' 5
       = ([Post (build_request ''s'' ''h'' ''d'' ''a'' 1 50),
           Print (UnexpectedFormat (JObj [(''error'', JStr ''expired'')]))], Inr (JArr []))"
proof -
  have h: "snd (get_card_transactions net_error_object ''s'' ''h'' ''d'' ''a'' 1 50 1 3)
       = Inr (JObj [(''error'', JStr ''expired'')])"
    by (simp add: get_card_transactions_def Let_def net_error_object_def attempt_loop.simps after_def)
  have t: "truthy (JObj [(''error'', JStr ''expired'')])" by simp
  have n: "py_in ''total'' (JObj [(''error'', JStr ''expired'')]) = Inr False" by simp
  from first_page_without_total [OF h t n, of 5] h show ?thesis
    by (simp add: get_card_transactions_def Let_def net_error_object_def attempt_loop.simps after_def)
qed

text \<open>The empty object is a successfully fetched page without \<^verbatim>\<open>'total'\<close>; the run
  reports a failed initial fetch and not an unexpected format.\<close>

theorem empty_object_counterexample:
  "snd (get_card_transactions net_empty_object ''s'' ''h'' ''d'' ''a'' 1 50 1 3) = Inr (JObj [])
   \<and> py_in ''total'' (JObj []) = Inr False
   \<and> snd (get_all_transactions net_empty_object ''s'' ''h'' ''d'' ''a'' 1) = Inr (JArr [])
   \<and> prints (fst (get_all_transactions net_empty_object ''s'' ''h'' ''d'' ''a'' 1)) = [InitialFetchFailed]
   \<and> UnexpectedFormat (JObj []) \<notin> set (prints (fst (get_all_transactions net_empty_object ''s'' ''h'' ''d'' ''a'' 1)))"
  by (simp add: get_all_transactions_def get_card_transactions_def Let_def net_empty_object_def
        attempt_loop.simps after_def)

text \<open>
  C10. When the first attempt for page 1 gets status 200 and a body that parses to the
  empty object, the fetch succeeds and returns that object, and \<^verbatim>\<open>get_all_transactions\<close>
  reports a failed initial fetch and returns the empty list: the test of line 107 is the
  truth value of the page, and the empty object is false.
\<close>

theorem empty_object_reported_as_failure:
  assumes "net (build_request session_id hall_ticket start_date account 1 50) 0 = Response 200 (Some (JObj []))"
  shows "get_card_transactions net session_id hall_ticket start_date account 1 50 1 3
           = ([Post (build_request session_id hall_ticket start_date account 1 50)], Inr (JObj []))
       \<and> get_all_transactions net session_id hall_ticket start_date account delay
           = ([Post (build_request session_id hall_ticket start_date account 1 50),
               Print InitialFetchFailed], Inr (JArr []))"
proof -
  have fetch: "get_card_transactions net session_id hall_ticket start_date account 1 50 1 3
           = ([Post (build_request session_id hall_ticket start_date account 1 50)], Inr (JObj []))"
    using assms by (simp add: get_card_transactions_def Let_def attempt_loop_success)
  then show ?thesis
    by (simp add: get_all_transactions_def after_def)
qed

theorem empty_object_reported_as_failure_witness:
  "net_empty_object (build_request ''s'' ''h'' ''d'' ''a'' 1 50) 0 = Response 200 (Some (JObj []))
   \<and> prints (fst (get_all_transactions net_empty_object ''s'' ''h'' ''d'' ''a'' 7)) = [InitialFetchFailed]
   \<and> snd (get_all_transactions net_empty_object ''s'' ''h'' ''d'' ''a'' 7) = Inr (JArr [])"
proof -
  have h: "net_empty_object (build_request ''s'' ''h'' ''d'' ''a'' 1 50) 0 = Response 200 (Some (JObj []))"
    by (simp add: net_empty_object_def)
  from empty_object_reported_as_failure [where net = net_empty_object and session_id = "''s''"
        and hall_ticket = "''h''" and start_date = "''d''" and account = "''a''" and delay = 7] h
  show ?thesis by simp
qed

section \<open>The pagination loop\<close>

lemma extend_rows_accepted:
  "accepted v \<Longrightarrow> extend_rows (JArr xs) v = Inr (JArr (xs @ page_items v))"
  by (auto simp: accepted_def page_items_def split: sum.splits)

lemma accepted_object:
  "map_of kvs ''rows'' = Some (JArr rs) \<Longrightarrow> accepted (JObj kvs) \<and> page_items (JObj kvs) = rs"
  by (auto simp: accepted_def page_items_def has_rows_def dest: map_of_SomeD intro: rev_image_eqI)

lemma fetch_remaining_done:
  "\<not> page \<le> total_pages \<Longrightarrow>
     fetch_remaining net session_id hall_ticket start_date account delay total_pages page all_transactions
       = ([], Inr all_transactions)"
  by (subst fetch_remaining.simps) simp

lemma fetch_remaining_accept:
  assumes "snd (get_card_transactions net session_id hall_ticket start_date account page 50 delay 3) = Inr v"
    and "accepted v" and "page \<le> total_pages"
  shows "fetch_remaining net session_id hall_ticket start_date account delay total_pages page (JArr xs)
       = after (page_trace net session_id hall_ticket start_date account delay total_pages page)
           (fetch_remaining net session_id hall_ticket start_date account delay total_pages (page + 1)
              (JArr (xs @ page_items v)))"
proof -
  obtain evs where e: "get_card_transactions net session_id hall_ticket start_date account page 50 delay 3
      = (evs, Inr v)"
    using assms(1) by (cases "get_card_transactions net session_id hall_ticket start_date account page 50 delay 3") auto
  have h: "has_rows v = Inr True" using assms(2) by (simp add: accepted_def)
  show ?thesis
    using assms(3)
    by (subst fetch_remaining.simps)
       (simp add: e h extend_rows_accepted [OF assms(2)] page_trace_def after_def
          del: extend_rows.simps)
qed

lemma fetch_remaining_stop:
  assumes "snd (get_card_transactions net session_id hall_ticket start_date account page 50 delay 3) = Inr v"
    and "has_rows v = Inr False" and "page \<le> total_pages"
  shows "fetch_remaining net session_id hall_ticket start_date account delay total_pages page all_transactions
       = (page_trace net session_id hall_ticket start_date account delay total_pages page
            @ [Print (PageFailed page), Print Stopping], Inr all_transactions)"
proof -
  obtain evs where e: "get_card_transactions net session_id hall_ticket start_date account page 50 delay 3
      = (evs, Inr v)"
    using assms(1) by (cases "get_card_transactions net session_id hall_ticket start_date account page 50 delay 3") auto
  show ?thesis
    using assms(2,3)
    by (subst fetch_remaining.simps) (simp add: e page_trace_def after_def)
qed

lemma fetch_remaining_accepted_prefix:
  assumes "\<forall>p\<in>{page..<k}. snd (get_card_transactions net session_id hall_ticket start_date account p 50 delay 3) = Inr (V p)
              \<and> accepted (V p)"
    and "page \<le> k" and "k \<le> total_pages + 1"
  shows "fetch_remaining net session_id hall_ticket start_date account delay total_pages page (JArr xs)
       = after (concat (map (page_trace net session_id hall_ticket start_date account delay total_pages) [page..k - 1]))
           (fetch_remaining net session_id hall_ticket start_date account delay total_pages k
              (JArr (xs @ concat (map (\<lambda>p. page_items (V p)) [page..k - 1]))))"
  using assms(1,2)
proof (induction "nat (k - page)" arbitrary: page xs)
  case 0
  then have "page = k" by simp
  then show ?case by simp
next
  case (Suc n)
  then have lt: "page < k" and n: "n = nat (k - (page + 1))" by simp_all
  have here: "snd (get_card_transactions net session_id hall_ticket start_date account page 50 delay 3) = Inr (V page)"
      "accepted (V page)"
    using Suc.prems(1) lt by simp_all
  have le: "page \<le> total_pages" using lt assms(3) by simp
  have rest: "\<forall>p\<in>{page + 1..<k}. snd (get_card_transactions net session_id hall_ticket start_date account p 50 delay 3) = Inr (V p)
              \<and> accepted (V p)"
    using Suc.prems(1) by simp
  have up: "[page..k - 1] = page # [page + 1..k - 1]"
    using lt by (simp add: upto_rec1)
  show ?case
    using Suc.hyps(1) [OF n rest, of "xs @ page_items (V page)"] lt
    by (simp add: fetch_remaining_accept [OF here le] up)
qed

lemma get_all_transactions_start:
  assumes "snd (get_card_transactions net session_id hall_ticket start_date account 1 50 1 3) = Inr (JObj kvs)"
    and "map_of kvs ''total'' = Some (JInt total_records)"
  shows "get_all_transactions net session_id hall_ticket start_date account delay
       = after (fst (get_card_transactions net session_id hall_ticket start_date account 1 50 1 3)
                 @ [Print (Found (JInt total_records))])
           (fetch_remaining net session_id hall_ticket start_date account delay (total_pages_of total_records 50) 2
              (case map_of kvs ''rows'' of Some v \<Rightarrow> v | None \<Rightarrow> JArr []))"
proof -
  obtain evs where e: "get_card_transactions net session_id hall_ticket start_date account 1 50 1 3
      = (evs, Inr (JObj kvs))"
    using assms(1) by (cases "get_card_transactions net session_id hall_ticket start_date account 1 50 1 3") auto
  have k: "''total'' \<in> fst ` set kvs" "kvs \<noteq> []"
    using assms(2) by (auto dest: map_of_SomeD intro: rev_image_eqI)
  show ?thesis
    using assms(2) k by (simp add: get_all_transactions_def e after_def)
qed

lemma get_card_transactions_delay:
  assumes "snd (get_card_transactions net session_id hall_ticket start_date account page rows delay max_retries) = Inr v"
    and "1 < page"
  shows "0 \<le> delay"
  using assms by (auto simp: get_card_transactions_def Let_def split: if_splits)

lemma get_card_transactions_posts_replicate:
  assumes "1 \<le> max_retries" and "page \<le> 1 \<or> 0 \<le> delay"
  shows "map p_page (posts (fst (get_card_transactions net session_id hall_ticket start_date account
            page rows delay max_retries)))
       = replicate (Suc (length (posts (fst (get_card_transactions net session_id hall_ticket start_date
            account page rows delay max_retries))) - 1)) page"
proof -
  let ?ps = "posts (fst (get_card_transactions net session_id hall_ticket start_date account
            page rows delay max_retries))"
  have "\<forall>r\<in>set ?ps. p_page r = page"
    using get_card_transactions_posts_set [of net session_id hall_ticket start_date account page rows delay max_retries]
    by auto
  then have eq: "map p_page ?ps = replicate (length ?ps) page"
    by (simp add: map_replicate_const [symmetric] cong: map_cong)
  have "1 \<le> length (posts (fst (attempt_loop net
      (build_request session_id hall_ticket start_date account page rows) page delay max_retries 0)))"
    using assms(1) by (intro attempt_loop_posts_first) simp
  then have "1 \<le> length ?ps"
    using assms(2) by (auto simp: get_card_transactions_def Let_def)
  then have "length ?ps = Suc (length ?ps - 1)" by simp
  then have "replicate (length ?ps) page = replicate (Suc (length ?ps - 1)) page"
    by (rule arg_cong [where f = "\<lambda>k. replicate k page"])
  with eq show ?thesis by (rule trans)
qed

lemma remdups_adj_replicate_append:
  "ys = [] \<or> hd ys \<noteq> x \<Longrightarrow> remdups_adj (replicate (Suc n) x @ ys) = x # remdups_adj ys"
  by (induction n) (cases ys; simp)+

lemma remdups_adj_blocks:
  "remdups_adj (concat (map (\<lambda>p. replicate (Suc (n p)) p) [a..b])) = [a..b]"
proof (induction "nat (b + 1 - a)" arbitrary: a)
  case 0
  then show ?case by simp
next
  case (Suc m)
  then have le: "a \<le> b" and m: "m = nat (b + 1 - (a + 1))" by simp_all
  let ?rest = "concat (map (\<lambda>p. replicate (Suc (n p)) p) [a + 1..b])"
  have hd: "?rest = [] \<or> hd ?rest \<noteq> a"
  proof (cases "a + 1 \<le> b")
    case True
    then have "[a + 1..b] = (a + 1) # [a + 1 + 1..b]" by (simp add: upto_rec1)
    then show ?thesis by simp
  next
    case False
    then show ?thesis by simp
  qed
  have "[a..b] = a # [a + 1..b]" using le by (simp add: upto_rec1)
  then show ?case
    using Suc.hyps(1) [OF m] remdups_adj_replicate_append [OF hd, of "n a"] by simp
qed

lemma posts_page_traces:
  "posts (concat (map (page_trace net session_id hall_ticket start_date account delay total_pages) ps))
     = concat (map (\<lambda>p. posts (fst (get_card_transactions net session_id hall_ticket start_date account
          p 50 delay 3))) ps)"
  by (induction ps) (simp_all add: page_trace_def)

lemma pages_of_run:
  assumes "0 \<le> delay \<or> m < 2"
  shows "remdups_adj (map p_page
           (posts (fst (get_card_transactions net session_id hall_ticket start_date account 1 50 1 3))
            @ concat (map (\<lambda>p. posts (fst (get_card_transactions net session_id hall_ticket start_date
                account p 50 delay 3))) [2..m])))
         = 1 # [2..m]"
proof -
  define n where "n p = length (posts (fst (get_card_transactions net session_id hall_ticket start_date
                account p 50 delay 3))) - 1" for p
  obtain n1 where first: "map p_page (posts (fst (get_card_transactions net session_id hall_ticket
      start_date account 1 50 1 3))) = replicate (Suc n1) 1"
    using get_card_transactions_posts_replicate [of 3 1 1 net session_id hall_ticket start_date account 50]
    by simp
  have later: "map p_page (posts (fst (get_card_transactions net session_id hall_ticket start_date
                account p 50 delay 3))) = replicate (Suc (n p)) p" if "p \<in> set [2..m]" for p
  proof -
    from that assms have "0 \<le> delay" by auto
    then show ?thesis
      unfolding n_def
      by (intro get_card_transactions_posts_replicate) simp_all
  qed
  have "map p_page (concat (map (\<lambda>p. posts (fst (get_card_transactions net session_id hall_ticket
        start_date account p 50 delay 3))) [2..m]))
      = concat (map (\<lambda>p. map p_page (posts (fst (get_card_transactions net session_id hall_ticket
        start_date account p 50 delay 3)))) [2..m])"
    by (simp add: map_concat comp_def)
  also have "\<dots> = concat (map (\<lambda>p. replicate (Suc (n p)) p) [2..m])"
    by (rule arg_cong [where f = concat]) (rule map_cong [OF refl], rule later)
  finally have blocks: "map p_page (concat (map (\<lambda>p. posts (fst (get_card_transactions net session_id
        hall_ticket start_date account p 50 delay 3))) [2..m]))
      = concat (map (\<lambda>p. replicate (Suc (n p)) p) [2..m])" .
  let ?rest = "concat (map (\<lambda>p. replicate (Suc (n p)) p) [2..m])"
  have hd: "?rest = [] \<or> hd ?rest \<noteq> 1"
  proof (cases "2 \<le> m")
    case True
    then have "[2..m] = 2 # [2 + 1..m]" by (simp add: upto_rec1)
    then show ?thesis by simp
  next
    case False
    then show ?thesis by simp
  qed
  have "remdups_adj (replicate (Suc n1) 1 @ ?rest) = 1 # [2..m]"
    using remdups_adj_replicate_append [OF hd, of n1] remdups_adj_blocks [of n 2 m]
    by (simp only:)
  then show ?thesis
    by (simp only: map_append first blocks)
qed

lemma total_pages_of_ceiling:
  assumes "0 < rows_per_page"
  shows "total_pages_of total_records rows_per_page
       = \<lceil>rat_of_int total_records / rat_of_int rows_per_page\<rceil>"
proof -
  let ?q = "(total_records + rows_per_page - 1) div rows_per_page"
  let ?r = "(total_records + rows_per_page - 1) mod rows_per_page"
  have split: "total_records + rows_per_page - 1 = ?q * rows_per_page + ?r" by simp
  have r: "0 \<le> ?r" "?r < rows_per_page" using assms by simp_all
  have lo: "total_records \<le> ?q * rows_per_page" using split r by linarith
  have hi: "?q * rows_per_page < total_records + rows_per_page" using split r by linarith
  have pos: "(0::rat) < rat_of_int rows_per_page" using assms by simp
  have "rat_of_int total_records \<le> rat_of_int ?q * rat_of_int rows_per_page"
    using lo by (metis of_int_le_iff of_int_mult)
  then have a: "rat_of_int total_records / rat_of_int rows_per_page \<le> rat_of_int ?q"
    using pos by (simp add: pos_divide_le_eq)
  have "rat_of_int ?q * rat_of_int rows_per_page < rat_of_int total_records + rat_of_int rows_per_page"
    using hi by (metis of_int_less_iff of_int_mult of_int_add)
  then have "(rat_of_int ?q - 1) * rat_of_int rows_per_page < rat_of_int total_records"
    by (simp add: algebra_simps)
  then have b: "rat_of_int ?q - 1 < rat_of_int total_records / rat_of_int rows_per_page"
    using pos by (simp add: pos_less_divide_eq)
  have "\<lceil>rat_of_int total_records / rat_of_int rows_per_page\<rceil> = ?q"
    using a b by (intro ceiling_unique) simp_all
  then show ?thesis by (simp add: total_pages_of_def)
qed

lemma posts_first_part:
  "posts (fst (get_card_transactions net session_id hall_ticket start_date account 1 50 1 3)
          @ Print m # concat (map (page_trace net session_id hall_ticket start_date account delay total_pages) ps)
          @ map Print ms)
     = posts (fst (get_card_transactions net session_id hall_ticket start_date account 1 50 1 3))
       @ concat (map (\<lambda>p. posts (fst (get_card_transactions net session_id hall_ticket start_date account
          p 50 delay 3))) ps)"
  by (simp add: posts_page_traces)

section \<open>A page that fails in the middle of a run\<close>

text \<open>
  C3. Let page 1 be an object with an integer \<^verbatim>\<open>'total'\<close> and a list of rows, let
  \<open>1 < k \<le> total_pages\<close>, let pages 2 to \<open>k - 1\<close> be accepted, and let the fetch of page \<open>k\<close>
  return a value that fails the test of line 132: \<^verbatim>\<open>None\<close> after all attempts, another
  false value, or a page without \<^verbatim>\<open>'rows'\<close>. Then the run announces and fetches pages 2
  to \<open>k\<close>, reports page \<open>k\<close> as failed and stops: it returns the rows of pages 1 to
  \<open>k - 1\<close> in page order, and the pages requested are 1 to \<open>k\<close>, none after \<open>k\<close>.
\<close>

theorem stop_at_failed_page:
  assumes first: "snd (get_card_transactions net session_id hall_ticket start_date account 1 50 1 3)
                    = Inr (JObj kvs)"
    and total: "map_of kvs ''total'' = Some (JInt total_records)"
    and rows1: "py_get (JObj kvs) ''rows'' (JArr []) = Inr (JArr xs)"
    and k: "1 < k" "k \<le> total_pages_of total_records 50"
    and before: "\<forall>p\<in>{2..<k}. snd (get_card_transactions net session_id hall_ticket start_date account
                      p 50 delay 3) = Inr (V p) \<and> accepted (V p)"
    and at: "snd (get_card_transactions net session_id hall_ticket start_date account k 50 delay 3)
                    = Inr (V k)"
      "has_rows (V k) = Inr False"
  shows "get_all_transactions net session_id hall_ticket start_date account delay
           = (fst (get_card_transactions net session_id hall_ticket start_date account 1 50 1 3)
                @ Print (Found (JInt total_records))
                # concat (map (page_trace net session_id hall_ticket start_date account delay
                     (total_pages_of total_records 50)) [2..k])
                @ [Print (PageFailed k), Print Stopping],
              Inr (JArr (xs @ concat (map (\<lambda>p. page_items (V p)) [2..k - 1]))))
       \<and> pages_requested (fst (get_all_transactions net session_id hall_ticket start_date account delay))
           = 1 # [2..k]"
proof -
  let ?tp = "total_pages_of total_records 50"
  let ?pt = "page_trace net session_id hall_ticket start_date account delay ?tp"
  have r1: "(case map_of kvs ''rows'' of Some v \<Rightarrow> v | None \<Rightarrow> JArr []) = JArr xs"
    using rows1 by simp
  have up: "[2..k] = [2..k - 1] @ [k]"
    using k(1) by (simp add: upto_rec2)
  have loop: "fetch_remaining net session_id hall_ticket start_date account delay ?tp 2 (JArr xs)
      = (concat (map ?pt [2..k]) @ [Print (PageFailed k), Print Stopping],
         Inr (JArr (xs @ concat (map (\<lambda>p. page_items (V p)) [2..k - 1]))))"
    using k
    by (simp add: fetch_remaining_accepted_prefix [OF before] fetch_remaining_stop [OF at] up after_def)
  have run: "get_all_transactions net session_id hall_ticket start_date account delay
           = (fst (get_card_transactions net session_id hall_ticket start_date account 1 50 1 3)
                @ Print (Found (JInt total_records)) # concat (map ?pt [2..k])
                @ [Print (PageFailed k), Print Stopping],
              Inr (JArr (xs @ concat (map (\<lambda>p. page_items (V p)) [2..k - 1]))))"
    by (simp add: get_all_transactions_start [OF first total] r1 loop after_def)
  have d: "0 \<le> delay"
    using at(1) k(1) by (rule get_card_transactions_delay)
  have "pages_requested (fst (get_all_transactions net session_id hall_ticket start_date account delay))
      = 1 # [2..k]"
    unfolding run pages_requested_def fst_conv
    using posts_first_part [of net session_id hall_ticket start_date account "Found (JInt total_records)"
        delay ?tp "[2..k]" "[PageFailed k, Stopping]"]
      pages_of_run [of delay k net session_id hall_ticket start_date account] d
    by simp
  with run show ?thesis by simp
qed

theorem stop_at_failed_page_witness:
  "snd (get_all_transactions net_third_page_down ''s'' ''h'' ''d'' ''a'' (1 / 2))
       = Inr (JArr [JInt 11, JInt 12, JInt 21, JInt 22])
   \<and> pages_requested (fst (get_all_transactions net_third_page_down ''s'' ''h'' ''d'' ''a'' (1 / 2)))
       = [1, 2, 3]
   \<and> prints (fst (get_all_transactions net_third_page_down ''s'' ''h'' ''d'' ''a'' (1 / 2)))
       = [Found (JInt 200), Fetching 2 4 (1 / 2), Fetching 3 4 (1 / 2),
          RequestError 3 0 None, Retrying 1, RequestError 3 1 None, Retrying (3 / 2),
          RequestError 3 2 None, PageFailed 3, Stopping]"
proof -
  define V where "V p = (if p = 2 then sample_page 200 2 else JNull)" for p :: int
  have first: "snd (get_card_transactions net_third_page_down ''s'' ''h'' ''d'' ''a'' 1 50 1 3)
      = Inr (JObj [(''total'', JInt 200), (''rows'', JArr [JInt 11, JInt 12])])"
    by (simp add: get_card_transactions_def Let_def net_third_page_down_def sample_page_def
          attempt_loop.simps after_def)
  have total: "map_of [(''total'', JInt 200), (''rows'', JArr [JInt 11, JInt 12])] ''total''
      = Some (JInt 200)" by simp
  have rows1: "py_get (JObj [(''total'', JInt 200), (''rows'', JArr [JInt 11, JInt 12])]) ''rows'' (JArr [])
      = Inr (JArr [JInt 11, JInt 12])" by simp
  have k: "(1::int) < 3" "3 \<le> total_pages_of 200 50" by (simp_all add: total_pages_of_def)
  have two: "snd (get_card_transactions net_third_page_down ''s'' ''h'' ''d'' ''a'' 2 50 (1 / 2) 3)
      = Inr (V 2) \<and> accepted (V 2)"
    by (simp add: get_card_transactions_def Let_def net_third_page_down_def sample_page_def
          attempt_loop.simps after_def V_def accepted_def has_rows_def)
  have before: "\<forall>p\<in>{2..<3}. snd (get_card_transactions net_third_page_down ''s'' ''h'' ''d'' ''a''
      p 50 (1 / 2) 3) = Inr (V p) \<and> accepted (V p)"
  proof
    fix p :: int assume "p \<in> {2..<3}"
    then have "p = 2" by simp
    with two show "snd (get_card_transactions net_third_page_down ''s'' ''h'' ''d'' ''a''
      p 50 (1 / 2) 3) = Inr (V p) \<and> accepted (V p)" by simp
  qed
  have at: "snd (get_card_transactions net_third_page_down ''s'' ''h'' ''d'' ''a'' 3 50 (1 / 2) 3)
      = Inr (V 3)" "has_rows (V 3) = Inr False"
    by (simp_all add: get_card_transactions_def Let_def net_third_page_down_def
          attempt_loop.simps after_def retry_def V_def has_rows_def)
  have traces: "prints (fst (get_card_transactions net_third_page_down ''s'' ''h'' ''d'' ''a'' 1 50 1 3)) = []"
    "prints (page_trace net_third_page_down ''s'' ''h'' ''d'' ''a'' (1 / 2) 4 2) = [Fetching 2 4 (1 / 2)]"
    "prints (page_trace net_third_page_down ''s'' ''h'' ''d'' ''a'' (1 / 2) 4 3)
       = [Fetching 3 4 (1 / 2), RequestError 3 0 None, Retrying 1, RequestError 3 1 None,
          Retrying (3 / 2), RequestError 3 2 None]"
    by (simp_all add: page_trace_def get_card_transactions_def Let_def net_third_page_down_def
          sample_page_def attempt_loop.simps after_def retry_def)
  have tp: "total_pages_of 200 50 = 4" by (simp add: total_pages_of_def)
  note t = stop_at_failed_page [OF first total rows1 k before at]
  have up: "[2..3] = [2, 3::int]" "[2..3 - 1] = [2::int]" by (simp_all add: upto_rec1)
  from t [THEN conjunct1]
  have run: "get_all_transactions net_third_page_down ''s'' ''h'' ''d'' ''a'' (1 / 2)
      = (fst (get_card_transactions net_third_page_down ''s'' ''h'' ''d'' ''a'' 1 50 1 3)
           @ Print (Found (JInt 200))
           # page_trace net_third_page_down ''s'' ''h'' ''d'' ''a'' (1 / 2) 4 2
           @ page_trace net_third_page_down ''s'' ''h'' ''d'' ''a'' (1 / 2) 4 3
           @ [Print (PageFailed 3), Print Stopping],
         Inr (JArr [JInt 11, JInt 12, JInt 21, JInt 22]))"
    by (simp add: tp up V_def page_items_def sample_page_def)
  from t [THEN conjunct2]
  have pages: "pages_requested (fst (get_all_transactions net_third_page_down ''s'' ''h'' ''d'' ''a'' (1 / 2)))
       = [1, 2, 3]"
    by (simp add: up)
  have res: "snd (get_all_transactions net_third_page_down ''s'' ''h'' ''d'' ''a'' (1 / 2))
       = Inr (JArr [JInt 11, JInt 12, JInt 21, JInt 22])"
    by (simp add: run)
  have pr: "prints (fst (get_all_transactions net_third_page_down ''s'' ''h'' ''d'' ''a'' (1 / 2)))
       = [Found (JInt 200), Fetching 2 4 (1 / 2), Fetching 3 4 (1 / 2),
          RequestError 3 0 None, Retrying 1, RequestError 3 1 None, Retrying (3 / 2),
          RequestError 3 2 None, PageFailed 3, Stopping]"
    by (simp add: run traces)
  from res pages pr show ?thesis by blast
qed

section \<open>The number of pages and of fetches\<close>

text \<open>
  C2, as the code has it. For a positive page size the page count of line 120 is the
  ceiling of \<open>total / page size\<close>, and the driver computes it with page size 50. When
  page 1 is an object with an integer \<^verbatim>\<open>'total'\<close> and a list of rows and every page from
  2 to \<open>total_pages\<close> is accepted, the run fetches page 1 and then pages 2 to
  \<open>total_pages\<close>, each once and in order: \<open>max 1 total_pages\<close> fetches, since page 1 is
  fetched before the count is known.
\<close>

theorem total_pages_and_fetch_calls:
  assumes first: "snd (get_card_transactions net session_id hall_ticket start_date account 1 50 1 3)
                    = Inr (JObj kvs)"
    and total: "map_of kvs ''total'' = Some (JInt total_records)"
    and rows1: "py_get (JObj kvs) ''rows'' (JArr []) = Inr (JArr xs)"
    and all: "\<forall>p\<in>{2..total_pages_of total_records 50}.
                snd (get_card_transactions net session_id hall_ticket start_date account p 50 delay 3)
                  = Inr (V p) \<and> accepted (V p)"
  shows "(\<forall>rows_per_page. 0 < rows_per_page \<longrightarrow>
            total_pages_of total_records rows_per_page
              = \<lceil>rat_of_int total_records / rat_of_int rows_per_page\<rceil>)
       \<and> get_all_transactions net session_id hall_ticket start_date account delay
           = (fst (get_card_transactions net session_id hall_ticket start_date account 1 50 1 3)
                @ Print (Found (JInt total_records))
                # concat (map (page_trace net session_id hall_ticket start_date account delay
                     (total_pages_of total_records 50)) [2..total_pages_of total_records 50]),
              Inr (JArr (xs @ concat (map (\<lambda>p. page_items (V p)) [2..total_pages_of total_records 50]))))
       \<and> pages_requested (fst (get_all_transactions net session_id hall_ticket start_date account delay))
           = 1 # [2..total_pages_of total_records 50]
       \<and> length (pages_requested (fst (get_all_transactions net session_id hall_ticket start_date
            account delay))) = nat (max 1 (total_pages_of total_records 50))"
proof -
  let ?tp = "total_pages_of total_records 50"
  let ?pt = "page_trace net session_id hall_ticket start_date account delay ?tp"
  have r1: "(case map_of kvs ''rows'' of Some v \<Rightarrow> v | None \<Rightarrow> JArr []) = JArr xs"
    using rows1 by simp
  have all': "\<forall>p\<in>{2..<?tp + 1}. snd (get_card_transactions net session_id hall_ticket start_date account
                      p 50 delay 3) = Inr (V p) \<and> accepted (V p)"
    using all by simp
  have loop: "fetch_remaining net session_id hall_ticket start_date account delay ?tp 2 (JArr xs)
      = (concat (map ?pt [2..?tp]), Inr (JArr (xs @ concat (map (\<lambda>p. page_items (V p)) [2..?tp]))))"
  proof (cases "2 \<le> ?tp")
    case True
    then show ?thesis
      by (simp add: fetch_remaining_accepted_prefix [OF all'] fetch_remaining_done after_def)
  next
    case False
    then show ?thesis by (simp add: fetch_remaining_done)
  qed
  have run: "get_all_transactions net session_id hall_ticket start_date account delay
           = (fst (get_card_transactions net session_id hall_ticket start_date account 1 50 1 3)
                @ Print (Found (JInt total_records)) # concat (map ?pt [2..?tp]),
              Inr (JArr (xs @ concat (map (\<lambda>p. page_items (V p)) [2..?tp]))))"
    by (simp add: get_all_transactions_start [OF first total] r1 loop after_def)
  have d: "0 \<le> delay \<or> ?tp < 2"
  proof (cases "2 \<le> ?tp")
    case True
    then have "snd (get_card_transactions net session_id hall_ticket start_date account 2 50 delay 3)
        = Inr (V 2)" using all by simp
    then have "0 \<le> delay" by (rule get_card_transactions_delay) simp
    then show ?thesis ..
  next
    case False
    then show ?thesis by simp
  qed
  have pages: "pages_requested (fst (get_all_transactions net session_id hall_ticket start_date account delay))
      = 1 # [2..?tp]"
    unfolding run pages_requested_def fst_conv
    using posts_first_part [of net session_id hall_ticket start_date account "Found (JInt total_records)"
        delay ?tp "[2..?tp]" "[]"]
      pages_of_run [of delay ?tp net session_id hall_ticket start_date account] d
    by simp
  have len: "length (1 # [2..?tp]) = nat (max 1 ?tp)" by simp
  show ?thesis
    using total_pages_of_ceiling run pages len by simp
qed

theorem total_pages_and_fetch_calls_witness:
  "total_pages_of 120 50 = 3
   \<and> total_pages_of 120 50 = \<lceil>rat_of_int 120 / rat_of_int 50\<rceil>
   \<and> pages_requested (fst (get_all_transactions (net_paged 120) ''s'' ''h'' ''d'' ''a'' (1 / 2)))
       = [1, 2, 3]
   \<and> length (pages_requested (fst (get_all_transactions (net_paged 120) ''s'' ''h'' ''d'' ''a'' (1 / 2))))
       = 3
   \<and> snd (get_all_transactions (net_paged 120) ''s'' ''h'' ''d'' ''a'' (1 / 2))
       = Inr (JArr [JInt 11, JInt 12, JInt 21, JInt 22, JInt 31, JInt 32])"
proof -
  have fetch: "snd (get_card_transactions (net_paged 120) ''s'' ''h'' ''d'' ''a'' p 50 delay 3)
      = Inr (sample_page 120 p)" if "0 \<le> delay" for p delay
    using that
    by (simp add: get_card_transactions_def Let_def net_paged_def attempt_loop_success not_less)
  have first: "snd (get_card_transactions (net_paged 120) ''s'' ''h'' ''d'' ''a'' 1 50 1 3)
      = Inr (JObj [(''total'', JInt 120), (''rows'', JArr [JInt 11, JInt 12])])"
    using fetch [of 1 1] by (simp add: sample_page_def)
  have total: "map_of [(''total'', JInt 120), (''rows'', JArr [JInt 11, JInt 12])] ''total''
      = Some (JInt 120)" by simp
  have rows1: "py_get (JObj [(''total'', JInt 120), (''rows'', JArr [JInt 11, JInt 12])]) ''rows'' (JArr [])
      = Inr (JArr [JInt 11, JInt 12])" by simp
  have acc: "accepted (sample_page 120 p)" for p
    by (simp add: sample_page_def accepted_object)
  have all: "\<forall>p\<in>{2..total_pages_of 120 50}.
      snd (get_card_transactions (net_paged 120) ''s'' ''h'' ''d'' ''a'' p 50 (1 / 2) 3)
        = Inr (sample_page 120 p) \<and> accepted (sample_page 120 p)"
    using fetch [of "1 / 2"] acc by simp
  have tp: "total_pages_of 120 50 = 3" by (simp add: total_pages_of_def)
  note t = total_pages_and_fetch_calls [OF first total rows1 all]
  have up: "[2..3] = [2, 3::int]" by (simp add: upto_rec1)
  from t [THEN conjunct1]
  have "0 < (50::int) \<longrightarrow> total_pages_of 120 50 = \<lceil>rat_of_int 120 / rat_of_int 50\<rceil>"
    by (rule spec)
  then have c: "total_pages_of 120 50 = \<lceil>rat_of_int 120 / rat_of_int 50\<rceil>" by simp
  from t [THEN conjunct2, THEN conjunct1]
  have res: "snd (get_all_transactions (net_paged 120) ''s'' ''h'' ''d'' ''a'' (1 / 2))
       = Inr (JArr [JInt 11, JInt 12, JInt 21, JInt 22, JInt 31, JInt 32])"
    by (simp add: tp up page_items_def sample_page_def)
  from t [THEN conjunct2, THEN conjunct2, THEN conjunct1]
  have pages: "pages_requested (fst (get_all_transactions (net_paged 120) ''s'' ''h'' ''d'' ''a'' (1 / 2)))
       = [1, 2, 3]"
    by (simp add: tp up)
  from t [THEN conjunct2, THEN conjunct2, THEN conjunct2]
  have len: "length (pages_requested (fst (get_all_transactions (net_paged 120) ''s'' ''h'' ''d'' ''a''
       (1 / 2)))) = 3"
    by (simp add: tp)
  from tp c pages len res show ?thesis by blast
qed

text \<open>With no records the page count is 0 and one page has been fetched.\<close>

theorem zero_total_counterexample:
  "total_pages_of 0 50 = 0
   \<and> snd (get_all_transactions net_zero_total ''s'' ''h'' ''d'' ''a'' 1) = Inr (JArr [])
   \<and> posts (fst (get_all_transactions net_zero_total ''s'' ''h'' ''d'' ''a'' 1))
       = [build_request ''s'' ''h'' ''d'' ''a'' 1 50]
   \<and> pages_requested (fst (get_all_transactions net_zero_total ''s'' ''h'' ''d'' ''a'' 1)) = [1]"
  by (simp add: get_all_transactions_def get_card_transactions_def Let_def net_zero_total_def
        attempt_loop.simps fetch_remaining.simps total_pages_of_def after_def pages_requested_def)

section \<open>Every run of the driver\<close>

lemma extend_rows_Inr:
  "extend_rows all_transactions v = Inr ext \<Longrightarrow>
     \<exists>xs. all_transactions = JArr xs \<and> ext = JArr (xs @ page_items v)"
  by (cases all_transactions) (auto simp: page_items_def split: sum.splits)

lemma rejected_no_items: "has_rows v = Inr False \<Longrightarrow> page_items v = []"
proof (cases v)
  case (JObj kvs)
  assume "has_rows v = Inr False"
  with JObj have "''rows'' \<notin> fst ` set kvs"
    by (cases "kvs = []") (auto simp: has_rows_def)
  then have "map_of kvs ''rows'' = None"
    by (simp add: map_of_eq_None_iff)
  with JObj show ?thesis by (simp add: page_items_def)
qed (simp_all add: page_items_def)

lemma fetch_remaining_cases [consumes 1, case_names raised stopped continued]:
  assumes "page \<le> total_pages"
  obtains e where
      "fetch_remaining net session_id hall_ticket start_date account delay total_pages page all_transactions
         = (page_trace net session_id hall_ticket start_date account delay total_pages page, Inl e)"
    | v where
      "snd (get_card_transactions net session_id hall_ticket start_date account page 50 delay 3) = Inr v"
      "has_rows v = Inr False"
      "fetch_remaining net session_id hall_ticket start_date account delay total_pages page all_transactions
         = (page_trace net session_id hall_ticket start_date account delay total_pages page
              @ [Print (PageFailed page), Print Stopping], Inr all_transactions)"
    | v xs where
      "snd (get_card_transactions net session_id hall_ticket start_date account page 50 delay 3) = Inr v"
      "has_rows v = Inr True" "all_transactions = JArr xs"
      "fetch_remaining net session_id hall_ticket start_date account delay total_pages page all_transactions
         = after (page_trace net session_id hall_ticket start_date account delay total_pages page)
             (fetch_remaining net session_id hall_ticket start_date account delay total_pages (page + 1)
                (JArr (xs @ page_items v)))"
proof -
  let ?call = "get_card_transactions net session_id hall_ticket start_date account page 50 delay 3"
  let ?loop = "fetch_remaining net session_id hall_ticket start_date account delay total_pages"
  let ?pt = "page_trace net session_id hall_ticket start_date account delay total_pages page"
  obtain evs r where call: "?call = (evs, r)" by (cases ?call)
  then have pt: "?pt = Print (Fetching page total_pages delay) # evs"
    by (simp add: page_trace_def)
  show thesis
  proof (cases r)
    case (Inl e)
    have "?loop page all_transactions = (?pt, Inl e)"
      using assms by (subst fetch_remaining.simps) (simp add: call Inl pt after_def)
    then show thesis by (rule that(1))
  next
    case (Inr v)
    then have v: "snd ?call = Inr v" by (simp add: call)
    show thesis
    proof (cases "has_rows v")
      case (Inl e)
      have "?loop page all_transactions = (?pt, Inl e)"
        using assms by (subst fetch_remaining.simps) (simp add: call \<open>r = Inr v\<close> Inl pt after_def)
      then show thesis by (rule that(1))
    next
      case has: (Inr b)
      show thesis
      proof (cases b)
        case False
        with has have "has_rows v = Inr False" by simp
        with v show thesis
          using fetch_remaining_stop [OF v _ assms] that(2) by blast
      next
        case True
        with has have h: "has_rows v = Inr True" by simp
        show thesis
        proof (cases "extend_rows all_transactions v")
          case (Inl e)
          have "?loop page all_transactions = (?pt, Inl e)"
            using assms
            by (subst fetch_remaining.simps)
               (simp add: call \<open>r = Inr v\<close> h Inl pt after_def del: extend_rows.simps)
          then show thesis by (rule that(1))
        next
          case (Inr ext)
          then obtain xs where xs: "all_transactions = JArr xs" "ext = JArr (xs @ page_items v)"
            using extend_rows_Inr by blast
          have "?loop page all_transactions = after ?pt (?loop (page + 1) (JArr (xs @ page_items v)))"
            using assms xs(2)
            by (subst fetch_remaining.simps)
               (simp add: call \<open>r = Inr v\<close> h Inr pt after_def del: extend_rows.simps)
          with v h xs(1) show thesis by (rule that(3))
        qed
      qed
    qed
  qed
qed

lemma timeline_page_trace [simp]:
  "timeline (page_trace net session_id hall_ticket start_date account delay total_pages page)
     = timeline (fst (get_card_transactions net session_id hall_ticket start_date account page 50 delay 3))"
  by (simp add: page_trace_def)

lemma posts_page_trace [simp]:
  "posts (page_trace net session_id hall_ticket start_date account delay total_pages page)
     = posts (fst (get_card_transactions net session_id hall_ticket start_date account page 50 delay 3))"
  by (simp add: page_trace_def)

lemma fetch_remaining_timeline:
  "\<exists>m. page - 1 \<le> m
     \<and> timeline (fst (fetch_remaining net session_id hall_ticket start_date account delay total_pages
          page all_transactions))
       = concat (map (\<lambda>p. timeline (fst (get_card_transactions net session_id hall_ticket start_date
           account p 50 delay 3))) [page..m])"
proof (induction "nat (total_pages + 1 - page)" arbitrary: page all_transactions)
  case 0
  then have "\<not> page \<le> total_pages" by simp
  then have "timeline (fst (fetch_remaining net session_id hall_ticket start_date account delay total_pages
          page all_transactions))
       = concat (map (\<lambda>p. timeline (fst (get_card_transactions net session_id hall_ticket start_date
           account p 50 delay 3))) [page..page - 1])"
    by (simp add: fetch_remaining_done)
  then show ?case by (intro exI [where x = "page - 1"]) simp
next
  case (Suc n)
  then have le: "page \<le> total_pages" and n: "n = nat (total_pages + 1 - (page + 1))" by simp_all
  let ?tl = "\<lambda>p. timeline (fst (get_card_transactions net session_id hall_ticket start_date
           account p 50 delay 3))"
  let ?loop = "fetch_remaining net session_id hall_ticket start_date account delay total_pages"
  have single: "[page..page] = [page]" by (simp add: upto_rec1)
  from le show ?case
  proof (cases rule: fetch_remaining_cases [where net = net and session_id = session_id
        and hall_ticket = hall_ticket and start_date = start_date and account = account
        and delay = delay and all_transactions = all_transactions])
    case (raised e)
    then have "timeline (fst (?loop page all_transactions)) = concat (map ?tl [page..page])"
      by (simp add: single)
    then show ?thesis by (intro exI [where x = page]) simp
  next
    case (stopped v)
    then have "timeline (fst (?loop page all_transactions)) = concat (map ?tl [page..page])"
      by (simp add: single)
    then show ?thesis by (intro exI [where x = page]) simp
  next
    case (continued v xs)
    from Suc.hyps(1) [OF n, of "JArr (xs @ page_items v)"] obtain m where m: "page \<le> m"
      and rest: "timeline (fst (?loop (page + 1) (JArr (xs @ page_items v)))) = concat (map ?tl [page + 1..m])"
      by auto
    have "[page..m] = page # [page + 1..m]" using m by (simp add: upto_rec1)
    then have "timeline (fst (?loop page all_transactions)) = concat (map ?tl [page..m])"
      by (simp add: continued(4) rest)
    with m show ?thesis by (intro exI [where x = m]) simp
  qed
qed

lemma get_all_transactions_cases [case_names raised rejected started]:
  obtains e ms where
      "get_all_transactions net session_id hall_ticket start_date account delay
         = (fst (get_card_transactions net session_id hall_ticket start_date account 1 50 1 3)
              @ map Print ms, Inl e)"
    | first_page m where
      "snd (get_card_transactions net session_id hall_ticket start_date account 1 50 1 3) = Inr first_page"
      "\<not> (truthy first_page \<and> py_in ''total'' first_page = Inr True)"
      "get_all_transactions net session_id hall_ticket start_date account delay
         = (fst (get_card_transactions net session_id hall_ticket start_date account 1 50 1 3)
              @ [Print m], Inr (JArr []))"
    | first_page total_records total_pages rows1 where
      "snd (get_card_transactions net session_id hall_ticket start_date account 1 50 1 3) = Inr first_page"
      "truthy first_page" "py_in ''total'' first_page = Inr True"
      "py_get first_page ''rows'' (JArr []) = Inr rows1"
      "get_all_transactions net session_id hall_ticket start_date account delay
         = after (fst (get_card_transactions net session_id hall_ticket start_date account 1 50 1 3)
                   @ [Print (Found total_records)])
             (fetch_remaining net session_id hall_ticket start_date account delay total_pages 2 rows1)"
proof -
  let ?call = "get_card_transactions net session_id hall_ticket start_date account 1 50 1 3"
  let ?run = "get_all_transactions net session_id hall_ticket start_date account delay"
  obtain evs r where call: "?call = (evs, r)" by (cases ?call)
  show thesis
  proof (cases r)
    case (Inl e)
    then have "?run = (fst ?call @ map Print [], Inl e)"
      by (simp add: get_all_transactions_def call)
    then show thesis by (rule that(1))
  next
    case (Inr first_page)
    then have fp: "snd ?call = Inr first_page" by (simp add: call)
    show thesis
    proof (cases "truthy first_page")
      case False
      then have "?run = (fst ?call @ [Print InitialFetchFailed], Inr (JArr []))"
        by (simp add: get_all_transactions_def call Inr after_def)
      with fp False show thesis using that(2) by blast
    next
      case True
      show thesis
      proof (cases "py_in ''total'' first_page")
        case (Inl e)
        then have "?run = (fst ?call @ map Print [], Inl e)"
          using True by (simp add: get_all_transactions_def call Inr after_def)
        then show thesis by (rule that(1))
      next
        case has: (Inr b)
        show thesis
        proof (cases b)
          case False
          then have "?run = (fst ?call @ [Print (UnexpectedFormat first_page)], Inr (JArr []))"
            using True has by (simp add: get_all_transactions_def call Inr after_def)
          moreover have "\<not> (truthy first_page \<and> py_in ''total'' first_page = Inr True)"
            using has False by simp
          ultimately show thesis using fp that(2) by blast
        next
          case b: True
          with has have t: "py_in ''total'' first_page = Inr True" by simp
          show thesis
          proof (cases "py_get first_page ''total'' (JInt 0)")
            case (Inl e)
            then have "?run = (fst ?call @ map Print [], Inl e)"
              using True t by (simp add: get_all_transactions_def call Inr after_def)
            then show thesis by (rule that(1))
          next
            case total: (Inr total_records)
            obtain printed c where pc: "page_count total_records = (printed, c)"
              by (cases "page_count total_records")
            show thesis
            proof (cases c)
              case (Inl e)
              then have "?run = (fst ?call @ map Print (if printed then [Found total_records] else []), Inl e)"
                using True t total pc by (simp add: get_all_transactions_def call Inr after_def)
              then show thesis by (rule that(1))
            next
              case count: (Inr total_pages)
              show thesis
              proof (cases "py_get first_page ''rows'' (JArr [])")
                case (Inl e)
                then have "?run = (fst ?call @ map Print [Found total_records], Inl e)"
                  using True t total pc count by (simp add: get_all_transactions_def call Inr after_def)
                then show thesis by (rule that(1))
              next
                case rows: (Inr rows1)
                then have "?run = after (fst ?call @ [Print (Found total_records)])
                    (fetch_remaining net session_id hall_ticket start_date account delay total_pages 2 rows1)"
                  using True t total pc count by (simp add: get_all_transactions_def call Inr after_def)
                with fp True t rows show thesis by (rule that(3))
              qed
            qed
          qed
        qed
      qed
    qed
  qed
qed

lemma fetch_remaining_returns:
  assumes "fetch_remaining net session_id hall_ticket start_date account delay total_pages page
             all_transactions = (tr, Inr res)"
  shows "\<exists>m V. page - 1 \<le> m
      \<and> (\<forall>p\<in>{page..m}. snd (get_card_transactions net session_id hall_ticket start_date account
              p 50 delay 3) = Inr (V p))
      \<and> posts tr = concat (map (\<lambda>p. posts (fst (get_card_transactions net session_id hall_ticket
              start_date account p 50 delay 3))) [page..m])
      \<and> ((\<exists>xs. all_transactions = JArr xs
              \<and> res = JArr (xs @ concat (map (\<lambda>p. page_items (V p)) [page..m])))
         \<or> (res = all_transactions \<and> concat (map (\<lambda>p. page_items (V p)) [page..m]) = []))"
  using assms
proof (induction "nat (total_pages + 1 - page)" arbitrary: page all_transactions tr)
  case 0
  then have "\<not> page \<le> total_pages" by simp
  with 0(2) have "tr = []" "res = all_transactions"
    by (simp_all add: fetch_remaining_done)
  then show ?case
    by (intro exI [where x = "page - 1"] exI [where x = "\<lambda>p. JNull"]) simp
next
  case (Suc n)
  then have le: "page \<le> total_pages" and n: "n = nat (total_pages + 1 - (page + 1))" by simp_all
  let ?call = "\<lambda>p. get_card_transactions net session_id hall_ticket start_date account p 50 delay 3"
  let ?loop = "fetch_remaining net session_id hall_ticket start_date account delay total_pages"
  have single: "[page..page] = [page]" by (simp add: upto_rec1)
  from le show ?case
  proof (cases rule: fetch_remaining_cases [where net = net and session_id = session_id
        and hall_ticket = hall_ticket and start_date = start_date and account = account
        and delay = delay and all_transactions = all_transactions])
    case (raised e)
    with Suc.prems show ?thesis by simp
  next
    case (stopped v)
    with Suc.prems have tr: "posts tr = posts (fst (?call page))" and res: "res = all_transactions"
      by auto
    have "page_items v = []" using stopped(2) by (rule rejected_no_items)
    with tr res stopped(1) show ?thesis
      by (intro exI [where x = page] exI [where x = "\<lambda>p. v"]) (simp add: single)
  next
    case (continued v xs)
    let ?ext = "JArr (xs @ page_items v)"
    from Suc.prems continued(4)
    have rest: "?loop (page + 1) ?ext = (fst (?loop (page + 1) ?ext), Inr res)"
      and tr: "posts tr = posts (fst (?call page)) @ posts (fst (?loop (page + 1) ?ext))"
      by (auto simp: after_def prod_eq_iff)
    from Suc.hyps(1) [OF n rest] obtain m V where m: "page \<le> m"
      and vals: "\<forall>p\<in>{page + 1..m}. snd (?call p) = Inr (V p)"
      and ps: "posts (fst (?loop (page + 1) ?ext)) = concat (map (\<lambda>p. posts (fst (?call p))) [page + 1..m])"
      and r: "(\<exists>ys. ?ext = JArr ys \<and> res = JArr (ys @ concat (map (\<lambda>p. page_items (V p)) [page + 1..m])))
         \<or> (res = ?ext \<and> concat (map (\<lambda>p. page_items (V p)) [page + 1..m]) = [])"
      by auto
    define W where "W = V(page := v)"
    have up: "[page..m] = page # [page + 1..m]" using m by (simp add: upto_rec1)
    have same: "map (\<lambda>p. page_items (W p)) [page + 1..m] = map (\<lambda>p. page_items (V p)) [page + 1..m]"
      by (rule map_cong [OF refl]) (simp add: W_def)
    have res: "res = JArr (xs @ page_items v @ concat (map (\<lambda>p. page_items (V p)) [page + 1..m]))"
      using r by auto
    have w1: "\<forall>p\<in>{page..m}. snd (?call p) = Inr (W p)"
    proof
      fix p assume "p \<in> {page..m}"
      then have "p = page \<or> p \<in> {page + 1..m}" by auto
      then show "snd (?call p) = Inr (W p)"
        using continued(1) vals by (auto simp: W_def)
    qed
    have w2: "posts tr = concat (map (\<lambda>p. posts (fst (?call p))) [page..m])"
      by (simp add: tr ps up)
    have w3: "all_transactions = JArr xs
        \<and> res = JArr (xs @ concat (map (\<lambda>p. page_items (W p)) [page..m]))"
    proof -
      have "W page = v" by (simp add: W_def)
      then show ?thesis using continued(3) res by (simp add: up same)
    qed
    from m w1 w2 w3 show ?thesis
      by (intro exI [where x = m] exI [where x = W]) simp
  qed
qed

lemma get_card_transactions_timeline:
  assumes "0 \<le> delay"
  shows "timeline (fst (get_card_transactions net session_id hall_ticket start_date account page rows
            delay max_retries))
       = (if page > 1 then [Sleep delay] else [])
         @ backoff_schedule (build_request session_id hall_ticket start_date account page rows) delay 0
             (length (posts (fst (get_card_transactions net session_id hall_ticket start_date account
                 page rows delay max_retries))))"
  using assms attempt_loop_timeline [OF assms, of net
      "build_request session_id hall_ticket start_date account page rows" page max_retries 0]
  by (simp add: get_card_transactions_def Let_def not_less)

lemma get_card_transactions_posts_le:
  "length (posts (fst (get_card_transactions net session_id hall_ticket start_date account page rows
      delay max_retries))) \<le> nat max_retries"
  using attempt_loop_posts_le [of net "build_request session_id hall_ticket start_date account page rows"
      page delay max_retries 0]
  by (simp add: get_card_transactions_def Let_def)

text \<open>
  C9. Whatever delay the caller gives, the requests and pauses of a run begin with those
  of \<^verbatim>\<open>get_card_transactions\<close> for page 1 with its defaults, delay 1 and 3 attempts: at
  most three requests, with pauses of \<open>1 * (i + 2)\<close> seconds between them and no pause
  before the first. They go on with those of the fetches of pages 2 to some \<open>m\<close>, each
  called with the caller's delay and 3 attempts, and contain nothing else: such a fetch
  pauses for the caller's \<open>delay\<close>, then makes at most three requests with pauses of
  \<open>delay * (i + 2)\<close> between them.
\<close>

theorem first_page_fetched_with_defaults:
  "timeline (fst (get_card_transactions net session_id hall_ticket start_date account 1 50 1 3))
     = backoff_schedule (build_request session_id hall_ticket start_date account 1 50) 1 0
         (length (posts (fst (get_card_transactions net session_id hall_ticket start_date account 1 50 1 3))))
   \<and> length (posts (fst (get_card_transactions net session_id hall_ticket start_date account 1 50 1 3))) \<le> 3
   \<and> (\<exists>m. 1 \<le> m
        \<and> timeline (fst (get_all_transactions net session_id hall_ticket start_date account delay))
          = timeline (fst (get_card_transactions net session_id hall_ticket start_date account 1 50 1 3))
            @ concat (map (\<lambda>p. timeline (fst (get_card_transactions net session_id hall_ticket start_date
                account p 50 delay 3))) [2..m]))
   \<and> (\<forall>p. 1 < p \<and> 0 \<le> delay \<longrightarrow>
          timeline (fst (get_card_transactions net session_id hall_ticket start_date account p 50 delay 3))
            = Sleep delay
              # backoff_schedule (build_request session_id hall_ticket start_date account p 50) delay 0
                  (length (posts (fst (get_card_transactions net session_id hall_ticket start_date account
                      p 50 delay 3))))
        \<and> length (posts (fst (get_card_transactions net session_id hall_ticket start_date account
              p 50 delay 3))) \<le> 3)"
proof -
  let ?call = "get_card_transactions net session_id hall_ticket start_date account 1 50 1 3"
  let ?req = "build_request session_id hall_ticket start_date account 1 50"
  let ?tl = "\<lambda>p. timeline (fst (get_card_transactions net session_id hall_ticket start_date
                account p 50 delay 3))"
  have a: "timeline (fst ?call) = backoff_schedule ?req 1 0 (length (posts (fst ?call)))"
    using get_card_transactions_timeline [of 1 net session_id hall_ticket start_date account 1 50 3]
    by simp
  have b: "length (posts (fst ?call)) \<le> 3"
    using get_card_transactions_posts_le [of net session_id hall_ticket start_date account 1 50 1 3]
    by simp
  have stop: "\<exists>m. 1 \<le> m
        \<and> timeline (fst (get_all_transactions net session_id hall_ticket start_date account delay))
          = timeline (fst ?call) @ concat (map ?tl [2..m])"
    if "timeline (fst (get_all_transactions net session_id hall_ticket start_date account delay))
          = timeline (fst ?call)"
    using that by (intro exI [where x = 1]) simp
  have c: "\<exists>m. 1 \<le> m
        \<and> timeline (fst (get_all_transactions net session_id hall_ticket start_date account delay))
          = timeline (fst ?call) @ concat (map ?tl [2..m])"
  proof (cases rule: get_all_transactions_cases [of net session_id hall_ticket start_date account delay])
    case (raised e ms)
    then show ?thesis by (intro stop) simp
  next
    case (rejected first_page m)
    then show ?thesis by (intro stop) simp
  next
    case (started first_page total_records total_pages rows1)
    obtain m where "2 - 1 \<le> m"
      "timeline (fst (fetch_remaining net session_id hall_ticket start_date account delay total_pages 2 rows1))
        = concat (map ?tl [2..m])"
      using fetch_remaining_timeline [of 2 net session_id hall_ticket start_date account delay total_pages rows1]
      by blast
    then show ?thesis
      by (intro exI [where x = m]) (simp add: started(5))
  qed
  have d: "timeline (fst (get_card_transactions net session_id hall_ticket start_date account p 50 delay 3))
            = Sleep delay
              # backoff_schedule (build_request session_id hall_ticket start_date account p 50) delay 0
                  (length (posts (fst (get_card_transactions net session_id hall_ticket start_date account
                      p 50 delay 3))))
        \<and> length (posts (fst (get_card_transactions net session_id hall_ticket start_date account
              p 50 delay 3))) \<le> 3" if "1 < p" "0 \<le> delay" for p
    using that get_card_transactions_timeline [of delay net session_id hall_ticket start_date account p 50 3]
      get_card_transactions_posts_le [of net session_id hall_ticket start_date account p 50 delay 3]
    by simp
  from a b c d show ?thesis by blast
qed

theorem first_page_fetched_with_defaults_witness:
  "timeline (fst (get_card_transactions net_flaky ''s'' ''h'' ''d'' ''a'' 1 50 1 3))
     = [Post (build_request ''s'' ''h'' ''d'' ''a'' 1 50), Sleep 2,
        Post (build_request ''s'' ''h'' ''d'' ''a'' 1 50), Sleep 3,
        Post (build_request ''s'' ''h'' ''d'' ''a'' 1 50)]
   \<and> timeline (fst (get_all_transactions net_flaky ''s'' ''h'' ''d'' ''a'' 5))
     = [Post (build_request ''s'' ''h'' ''d'' ''a'' 1 50), Sleep 2,
        Post (build_request ''s'' ''h'' ''d'' ''a'' 1 50), Sleep 3,
        Post (build_request ''s'' ''h'' ''d'' ''a'' 1 50)]
   \<and> (1::int) < 2 \<and> (0::rat) \<le> 5
   \<and> timeline (fst (get_card_transactions net_flaky ''s'' ''h'' ''d'' ''a'' 2 50 5 3))
     = [Sleep 5, Post (build_request ''s'' ''h'' ''d'' ''a'' 2 50), Sleep 10,
        Post (build_request ''s'' ''h'' ''d'' ''a'' 2 50), Sleep 15,
        Post (build_request ''s'' ''h'' ''d'' ''a'' 2 50)]"
proof -
  have n: "length (posts (fst (get_card_transactions net_flaky ''s'' ''h'' ''d'' ''a'' 1 50 1 3)))
      = Suc (Suc (Suc 0))"
    "length (posts (fst (get_card_transactions net_flaky ''s'' ''h'' ''d'' ''a'' 2 50 5 3)))
      = Suc (Suc (Suc 0))"
    by (simp_all add: get_card_transactions_def Let_def net_flaky_def attempt_loop.simps retry_def after_def)
  note t = first_page_fetched_with_defaults [of net_flaky "''s''" "''h''" "''d''" "''a''" 5]
  from t [THEN conjunct1]
  have a: "timeline (fst (get_card_transactions net_flaky ''s'' ''h'' ''d'' ''a'' 1 50 1 3))
     = [Post (build_request ''s'' ''h'' ''d'' ''a'' 1 50), Sleep 2,
        Post (build_request ''s'' ''h'' ''d'' ''a'' 1 50), Sleep 3,
        Post (build_request ''s'' ''h'' ''d'' ''a'' 1 50)]"
    by (simp add: n)
  have b: "timeline (fst (get_all_transactions net_flaky ''s'' ''h'' ''d'' ''a'' 5))
     = [Post (build_request ''s'' ''h'' ''d'' ''a'' 1 50), Sleep 2,
        Post (build_request ''s'' ''h'' ''d'' ''a'' 1 50), Sleep 3,
        Post (build_request ''s'' ''h'' ''d'' ''a'' 1 50)]"
    by (simp add: get_all_transactions_def get_card_transactions_def Let_def net_flaky_def
          attempt_loop.simps fetch_remaining.simps total_pages_of_def retry_def after_def)
  have h: "(1::int) < 2 \<and> (0::rat) \<le> 5" by simp
  from t [THEN conjunct2, THEN conjunct2, THEN conjunct2, THEN spec, of 2] h
  have c: "timeline (fst (get_card_transactions net_flaky ''s'' ''h'' ''d'' ''a'' 2 50 5 3))
     = [Sleep 5, Post (build_request ''s'' ''h'' ''d'' ''a'' 2 50), Sleep 10,
        Post (build_request ''s'' ''h'' ''d'' ''a'' 2 50), Sleep 15,
        Post (build_request ''s'' ''h'' ''d'' ''a'' 2 50)]"
    by (simp add: n)
  from a b c h show ?thesis by blast
qed

text \<open>
  C1, as the code has it. In every run of \<^verbatim>\<open>get_all_transactions\<close> that returns, the
  fetcher is called for pages 1 to some \<open>m\<close>, once each and in this order, and each call
  returns. When page 1 is accepted (true in Python's sense and with \<^verbatim>\<open>'total'\<close>), the
  result is the rows of page 1 followed by the rows of pages 2 to \<open>m\<close> in page order, so its
  length is the sum of their lengths; a page that stops the loop has no rows. When page 1
  is not accepted, the result is empty and only page 1 is fetched, whatever rows page 1
  has.
\<close>

theorem result_is_rows_in_page_order:
  assumes "get_all_transactions net session_id hall_ticket start_date account delay = (tr, Inr res)"
  shows "\<exists>first_page m V.
        snd (get_card_transactions net session_id hall_ticket start_date account 1 50 1 3) = Inr first_page
      \<and> 1 \<le> m
      \<and> (\<forall>p\<in>{2..m}. snd (get_card_transactions net session_id hall_ticket start_date account
              p 50 delay 3) = Inr (V p))
      \<and> posts tr = posts (fst (get_card_transactions net session_id hall_ticket start_date account 1 50 1 3))
            @ concat (map (\<lambda>p. posts (fst (get_card_transactions net session_id hall_ticket start_date
                account p 50 delay 3))) [2..m])
      \<and> pages_requested tr = 1 # [2..m]
      \<and> (if truthy first_page \<and> py_in ''total'' first_page = Inr True
          then \<exists>rows1. py_get first_page ''rows'' (JArr []) = Inr rows1
                 \<and> ((\<exists>xs. rows1 = JArr xs
                        \<and> res = JArr (xs @ concat (map (\<lambda>p. page_items (V p)) [2..m]))
                        \<and> length (xs @ concat (map (\<lambda>p. page_items (V p)) [2..m]))
                            = length xs + sum_list (map (\<lambda>p. length (page_items (V p))) [2..m]))
                     \<or> (res = rows1 \<and> concat (map (\<lambda>p. page_items (V p)) [2..m]) = []))
          else m = 1 \<and> res = JArr [])"
proof (cases rule: get_all_transactions_cases [of net session_id hall_ticket start_date account delay])
  case (raised e ms)
  with assms show ?thesis by simp
next
  case (rejected first_page msg)
  let ?call = "\<lambda>p. get_card_transactions net session_id hall_ticket start_date account p 50 delay 3"
  from assms rejected(3)
  have tr: "posts tr = posts (fst (get_card_transactions net session_id hall_ticket start_date account 1 50 1 3))"
    and res: "res = JArr []" by auto
  have pages: "pages_requested tr = 1 # [2..1]"
    unfolding pages_requested_def
    using pages_of_run [of delay 1 net session_id hall_ticket start_date account] by (simp add: tr)
  have result: "(if truthy first_page \<and> py_in ''total'' first_page = Inr True
          then \<exists>rows1. py_get first_page ''rows'' (JArr []) = Inr rows1
                 \<and> ((\<exists>xs. rows1 = JArr xs
                        \<and> res = JArr (xs @ concat (map (\<lambda>p. page_items ((\<lambda>p. JNull) p)) [2..1]))
                        \<and> length (xs @ concat (map (\<lambda>p. page_items ((\<lambda>p. JNull) p)) [2..1]))
                            = length xs + sum_list (map (\<lambda>p. length (page_items ((\<lambda>p. JNull) p))) [2..1]))
                     \<or> (res = rows1 \<and> concat (map (\<lambda>p. page_items ((\<lambda>p. JNull) p)) [2..1]) = []))
          else (1::int) = 1 \<and> res = JArr [])"
    using rejected(2) res by (simp only: if_not_P simp_thms)
  have none: "\<forall>p\<in>{2..1::int}. snd (?call p) = Inr ((\<lambda>p. JNull) p)" by simp
  have tr': "posts tr = posts (fst (get_card_transactions net session_id hall_ticket start_date account 1 50 1 3))
      @ concat (map (\<lambda>p. posts (fst (?call p))) [2..1])"
    by (simp add: tr)
  show ?thesis
    apply (rule exI [where x = first_page])
    apply (rule exI [where x = 1])
    apply (rule exI [where x = "\<lambda>p. JNull"])
    apply (intro conjI)
         apply (rule rejected(1))
        apply simp
       apply (rule none)
      apply (rule tr')
     apply (rule pages)
    apply (rule result)
    done
next
  case (started first_page total_records total_pages rows1)
  let ?call = "\<lambda>p. get_card_transactions net session_id hall_ticket start_date account p 50 delay 3"
  let ?first = "get_card_transactions net session_id hall_ticket start_date account 1 50 1 3"
  let ?loop = "fetch_remaining net session_id hall_ticket start_date account delay total_pages 2 rows1"
  from assms started(5)
  have loop: "?loop = (fst ?loop, Inr res)"
    and tr: "posts tr = posts (fst ?first) @ posts (fst ?loop)"
    by (auto simp: after_def prod_eq_iff)
  from fetch_remaining_returns [OF loop] obtain m V where m: "1 \<le> m"
    and vals: "\<forall>p\<in>{2..m}. snd (?call p) = Inr (V p)"
    and ps: "posts (fst ?loop) = concat (map (\<lambda>p. posts (fst (?call p))) [2..m])"
    and r: "(\<exists>xs. rows1 = JArr xs \<and> res = JArr (xs @ concat (map (\<lambda>p. page_items (V p)) [2..m])))
         \<or> (res = rows1 \<and> concat (map (\<lambda>p. page_items (V p)) [2..m]) = [])"
    by auto
  have d: "0 \<le> delay \<or> m < 2"
  proof (cases "2 \<le> m")
    case True
    with vals have "snd (?call 2) = Inr (V 2)" by simp
    then have "0 \<le> delay" by (rule get_card_transactions_delay) simp
    then show ?thesis ..
  next
    case False
    then show ?thesis by simp
  qed
  have posts: "posts tr = posts (fst ?first) @ concat (map (\<lambda>p. posts (fst (?call p))) [2..m])"
    by (simp add: tr ps)
  have pages: "pages_requested tr = 1 # [2..m]"
    unfolding pages_requested_def posts
    using d by (rule pages_of_run)
  have len: "length (xs @ concat (map (\<lambda>p. page_items (V p)) [2..m]))
      = length xs + sum_list (map (\<lambda>p. length (page_items (V p))) [2..m])" for xs :: "json list"
    by (simp add: length_concat comp_def)
  have "\<exists>rows1. py_get first_page ''rows'' (JArr []) = Inr rows1
                 \<and> ((\<exists>xs. rows1 = JArr xs
                        \<and> res = JArr (xs @ concat (map (\<lambda>p. page_items (V p)) [2..m]))
                        \<and> length (xs @ concat (map (\<lambda>p. page_items (V p)) [2..m]))
                            = length xs + sum_list (map (\<lambda>p. length (page_items (V p))) [2..m]))
                     \<or> (res = rows1 \<and> concat (map (\<lambda>p. page_items (V p)) [2..m]) = []))"
    using started(4) r len by blast
  then show ?thesis
    using started(1,2,3) m vals posts pages
    by (intro exI [where x = first_page] exI [where x = m] exI [where x = V]) simp
qed

theorem result_is_rows_in_page_order_witness:
  "snd (get_all_transactions (net_paged 120) ''s'' ''h'' ''d'' ''a'' 1)
     = Inr (JArr [JInt 11, JInt 12, JInt 21, JInt 22, JInt 31, JInt 32])
   \<and> pages_requested (fst (get_all_transactions (net_paged 120) ''s'' ''h'' ''d'' ''a'' 1)) = [1, 2, 3]"
proof -
  have run: "get_all_transactions (net_paged 120) ''s'' ''h'' ''d'' ''a'' 1
      = (fst (get_all_transactions (net_paged 120) ''s'' ''h'' ''d'' ''a'' 1),
         Inr (JArr [JInt 11, JInt 12, JInt 21, JInt 22, JInt 31, JInt 32]))"
    by (simp add: get_all_transactions_def get_card_transactions_def Let_def net_paged_def
          sample_page_def attempt_loop.simps fetch_remaining.simps total_pages_of_def after_def
          has_rows_def prod_eq_iff)
  have pages: "pages_requested (fst (get_all_transactions (net_paged 120) ''s'' ''h'' ''d'' ''a'' 1))
      = [1, 2, 3]"
    by (simp add: get_all_transactions_def get_card_transactions_def Let_def net_paged_def
          sample_page_def attempt_loop.simps fetch_remaining.simps total_pages_of_def after_def
          has_rows_def pages_requested_def)
  have res: "snd (get_all_transactions (net_paged 120) ''s'' ''h'' ''d'' ''a'' 1)
      = Inr (JArr [JInt 11, JInt 12, JInt 21, JInt 22, JInt 31, JInt 32])"
    using run by (metis snd_conv)
  from result_is_rows_in_page_order [OF run] res pages show ?thesis by blast
qed

text \<open>A page 1 that is fetched with two rows and without \<^verbatim>\<open>'total'\<close>: the result is
  empty.\<close>

theorem rows_without_total_counterexample:
  "snd (get_card_transactions net_rows_without_total ''s'' ''h'' ''d'' ''a'' 1 50 1 3)
     = Inr (JObj [(''rows'', JArr [JInt 11, JInt 12])])
   \<and> page_items (JObj [(''rows'', JArr [JInt 11, JInt 12])]) = [JInt 11, JInt 12]
   \<and> snd (get_all_transactions net_rows_without_total ''s'' ''h'' ''d'' ''a'' 1) = Inr (JArr [])
   \<and> pages_requested (fst (get_all_transactions net_rows_without_total ''s'' ''h'' ''d'' ''a'' 1)) = [1]"
  by (simp add: get_all_transactions_def get_card_transactions_def Let_def net_rows_without_total_def
        attempt_loop.simps after_def page_items_def pages_requested_def)

end
